theory Spec2Isabelle
  imports Main "HOL-Library.Word"
begin

unbundle bit_operations_syntax

section \<open>The sudoku state engine of \<^verbatim>\<open>src/engine/datamodule.c\<close>\<close>

text \<open>
  A shallow embedding of the C extension module: the \<^verbatim>\<open>CandidateSet\<close> value type, the
  cell table and the house aggregates of the \<^verbatim>\<open>State\<close> object, its mutation primitives,
  the rectangle finder, the key iterators and the pickle support.

  Conventions. \<^verbatim>\<open>uint16_t\<close> fields are \<open>16 word\<close>. \<^verbatim>\<open>Py_ssize_t\<close> counters are \<open>int\<close>
  (they stay far from the 64-bit bounds: every counter moves by one per cell and digit).
  Coordinates that went through \<^verbatim>\<open>UNPACK_KEY\<close> are \<open>nat\<close>. A Python dictionary is the
  list of its items in iteration order (\<^verbatim>\<open>PyDict_Next\<close>); its keys are pairwise distinct.
  A C function that sets a Python exception returns the error as a value.
\<close>

subsection \<open>Constants and macros\<close>

abbreviation (input) NUMROWS :: nat where "NUMROWS \<equiv> 9"
abbreviation (input) GRIDSIZE :: nat where "GRIDSIZE \<equiv> 81"
abbreviation (input) TERMS :: "16 word" where "TERMS \<equiv> 0x01FF"
abbreviation (input) ERRORBIT :: "16 word" where "ERRORBIT \<equiv> 0x8000"
abbreviation (input) ROWOFFSET :: nat where "ROWOFFSET \<equiv> 18"
abbreviation (input) COLOFFSET :: nat where "COLOFFSET \<equiv> 9"
abbreviation (input) GROFFSET :: nat where "GROFFSET \<equiv> 0"

definition INDEX :: "nat \<Rightarrow> nat \<Rightarrow> nat" where
  "INDEX x y = x * NUMROWS + y"

definition ROW :: "nat \<Rightarrow> nat" where
  "ROW i = i div NUMROWS"

definition COL :: "nat \<Rightarrow> nat" where
  "COL i = i mod NUMROWS"

text \<open>
  The exceptions the module raises, named by the condition that raises them:
  \<open>BadKey\<close> is the \<^verbatim>\<open>TypeError\<close> of \<^verbatim>\<open>UNPACK_KEY\<close>, \<open>KeyConflict\<close> the \<^verbatim>\<open>KeyError\<close> raised for
  a cell in the wrong solved/unsolved state, \<open>BadDigit\<close>, \<open>BadCount\<close>, \<open>BadCorner\<close> and
  \<open>BadState\<close> the \<^verbatim>\<open>ValueError\<close>s of the constructor and the clues view, of
  \<^verbatim>\<open>order_exactly_n\<close>, of \<^verbatim>\<open>find_rectangles\<close> and of \<^verbatim>\<open>CandidateSet.__setstate__\<close>,
  \<open>TypeMismatch\<close> the \<^verbatim>\<open>TypeError\<close> for a value that is no CandidateSet, \<open>Contradiction\<close>
  the \<^verbatim>\<open>ContradictionError\<close> with the coordinates it reports, \<open>ConfigError\<close> a failed
  lookup in the configuration tables, \<open>OsRngUnavailable\<close> a failed \<^verbatim>\<open>_PyOS_URandom\<close>,
  \<open>SystemError\<close> the \<^verbatim>\<open>SystemError\<close> that \<^verbatim>\<open>Py_BuildValue\<close> sets for a malformed format.
\<close>

datatype error =
    BadKey
  | BadDigit
  | BadCount
  | BadCorner
  | BadState
  | KeyConflict
  | TypeMismatch
  | Contradiction nat nat
  | ConfigError
  | OsRngUnavailable
  | SystemError

text \<open>
  \<^verbatim>\<open>UNPACK_KEY\<close>: a key is a 2-tuple of Python ints; both coordinates must lie in
  \<open>0..8\<close> (an int that does not fit \<^verbatim>\<open>Py_ssize_t\<close> fails the conversion, which is an
  error as well).
\<close>

definition UNPACK_KEY :: "int \<times> int \<Rightarrow> error + (nat \<times> nat)" where
  "UNPACK_KEY key =
     (case key of (x, y) \<Rightarrow>
        if x \<ge> 9 \<or> y \<ge> 9 \<or> x < 0 \<or> y < 0 then Inl BadKey
        else Inr (nat x, nat y))"

subsection \<open>CandidateSet\<close>

record CandidateSetObject =
  cs_iterpos :: int
  cs_set :: "16 word"

definition build_set :: "16 word \<Rightarrow> CandidateSetObject" where
  "build_set bits = \<lparr>cs_iterpos = 0, cs_set = bits AND TERMS\<rparr>"

text \<open>The bit-counting routine that fills the table of interned sizes.\<close>

definition count_ones :: "32 word \<Rightarrow> 32 word" where
  "count_ones u =
     (let uCount = u - (drop_bit 1 u AND 0xDB6DB6DB) - (drop_bit 2 u AND 0x49249249)
      in ((uCount + drop_bit 3 uCount) AND 0xC71C71C7) mod 63)"

text \<open>\<^verbatim>\<open>isizes[i]\<close> for \<open>i < 512\<close>, as \<^verbatim>\<open>PyInit_data\<close> fills it.\<close>

definition isizes :: "nat \<Rightarrow> int" where
  "isizes i = uint (count_ones (of_nat i))"

definition cs_seq_length :: "CandidateSetObject \<Rightarrow> int" where
  "cs_seq_length self = isizes (unat (cs_set self))"

text \<open>
  \<^verbatim>\<open>__getstate__\<close> and \<^verbatim>\<open>__setstate__\<close>. The argument of \<^verbatim>\<open>__setstate__\<close> is the pair of
  \<^verbatim>\<open>Py_ssize_t\<close> values that \<^verbatim>\<open>PyArg_ParseTuple(state, "nn", &x, &y)\<close> stores, hence two
  64-bit words read as signed numbers.
\<close>

definition data_CandidateSet___getstate___impl :: "CandidateSetObject \<Rightarrow> int \<times> int" where
  "data_CandidateSet___getstate___impl self = (uint (cs_set self), cs_iterpos self)"


subsection \<open>Cells, houses and the state object\<close>

record cell_info =
  ci_group :: nat
  ci_value :: "16 word"
  ci_candidates :: "16 word"

record house_info =
  hi_solved :: int
  hi_cand_count :: "int list"

text \<open>
  The fields of \<^verbatim>\<open>SudokuStateObject\<close> that the engine computes with. \<open>ss_grconfig\<close> holds,
  in row-major order, the identity of the group object that the \<^verbatim>\<open>grconfig\<close> dictionary
  gives each cell; \<open>ss_peers\<close> holds, per cell, the first keyset of its \<^verbatim>\<open>peers\<close> entry
  (the keys of the other cells of its group). Both come from the configuration module,
  which is not part of this file, and are installed unchanged. \<open>ss_digits\<close> is the array of
  \<open>NUMROWS\<close> counters; \<open>ss_digits_past i\<close> is the sum of what the code has added to
  \<^verbatim>\<open>ss_digits[NUMROWS + i]\<close>, the word \<open>i\<close> places behind the array (for \<open>i = 0\<close> that word is
  the pointer \<^verbatim>\<open>ss_grconfig\<close>, the field that follows the array in the object).
\<close>

record SudokuStateObject =
  ss_solved :: int
  ss_digits :: "int list"
  ss_digits_past :: "nat \<Rightarrow> int"
  ss_grconfig :: "nat list"
  ss_peers :: "(int \<times> int) list list"
  ss_skeys :: "(int \<times> int) set"
  ss_houses :: "house_info list"
  ss_grid :: "cell_info list"

definition CELL_VALUE :: "cell_info list \<Rightarrow> nat \<Rightarrow> nat \<Rightarrow> 16 word" where
  "CELL_VALUE grid x y = ci_value (grid ! INDEX x y)"

definition CELL_CANDS :: "cell_info list \<Rightarrow> nat \<Rightarrow> nat \<Rightarrow> 16 word" where
  "CELL_CANDS grid x y = ci_candidates (grid ! INDEX x y)"

definition CELL_FILLED :: "cell_info list \<Rightarrow> nat \<Rightarrow> nat \<Rightarrow> bool" where
  "CELL_FILLED grid x y \<longleftrightarrow> CELL_VALUE grid x y AND ERRORBIT = 0"

text \<open>The index into \<open>ss_houses\<close> that \<^verbatim>\<open>CELL_GROUP\<close> dereferences.\<close>

definition CELL_GROUP :: "SudokuStateObject \<Rightarrow> nat \<Rightarrow> nat \<Rightarrow> nat" where
  "CELL_GROUP s x y = ci_group (ss_grid s ! INDEX x y)"

text \<open>Assignments to one field of one cell.\<close>

definition set_CELL_VALUE :: "SudokuStateObject \<Rightarrow> nat \<Rightarrow> nat \<Rightarrow> 16 word \<Rightarrow> SudokuStateObject" where
  "set_CELL_VALUE s x y v =
     s\<lparr>ss_grid := (ss_grid s)[INDEX x y := (ss_grid s ! INDEX x y)\<lparr>ci_value := v\<rparr>]\<rparr>"

definition set_CELL_CANDS :: "SudokuStateObject \<Rightarrow> nat \<Rightarrow> nat \<Rightarrow> 16 word \<Rightarrow> SudokuStateObject" where
  "set_CELL_CANDS s x y m =
     s\<lparr>ss_grid := (ss_grid s)[INDEX x y := (ss_grid s ! INDEX x y)\<lparr>ci_candidates := m\<rparr>]\<rparr>"

text \<open>\<^verbatim>\<open>houses[h].hi_solved += k\<close> and \<^verbatim>\<open>houses[h].hi_cand_count[i] += k\<close>.\<close>

definition solved_add :: "int \<Rightarrow> nat \<Rightarrow> house_info list \<Rightarrow> house_info list" where
  "solved_add k h hs = hs[h := (hs ! h)\<lparr>hi_solved := hi_solved (hs ! h) + k\<rparr>]"

definition cand_count_add :: "int \<Rightarrow> nat \<Rightarrow> nat \<Rightarrow> house_info list \<Rightarrow> house_info list" where
  "cand_count_add k h i hs =
     hs[h := (hs ! h)\<lparr>hi_cand_count := (hi_cand_count (hs ! h))[i := hi_cand_count (hs ! h) ! i + k]\<rparr>]"

definition house_adjust_solved_up :: "SudokuStateObject \<Rightarrow> nat \<Rightarrow> nat \<Rightarrow> SudokuStateObject" where
  "house_adjust_solved_up self x y =
     self\<lparr>ss_houses :=
       solved_add 1 (CELL_GROUP self x y)
         (solved_add 1 (y + COLOFFSET) (solved_add 1 (x + ROWOFFSET) (ss_houses self)))\<rparr>"

definition house_adjust_solved_down :: "SudokuStateObject \<Rightarrow> nat \<Rightarrow> nat \<Rightarrow> SudokuStateObject" where
  "house_adjust_solved_down self x y =
     self\<lparr>ss_houses :=
       solved_add (- 1) (CELL_GROUP self x y)
         (solved_add (- 1) (y + COLOFFSET) (solved_add (- 1) (x + ROWOFFSET) (ss_houses self)))\<rparr>"

text \<open>
  One round of the loop over \<open>i\<close> in \<^verbatim>\<open>house_adjust_cand_count_up\<close> (\<open>k = 1\<close>) and
  \<^verbatim>\<open>house_adjust_cand_count_down\<close> (\<open>k = - 1\<close>): row, column, group, in this order.
\<close>

definition cand_count_round ::
  "int \<Rightarrow> nat \<Rightarrow> nat \<Rightarrow> nat \<Rightarrow> 16 word \<Rightarrow> house_info list \<Rightarrow> nat \<Rightarrow> house_info list" where
  "cand_count_round k r c g bits hs i =
     (if bit bits i
      then cand_count_add k g i (cand_count_add k c i (cand_count_add k r i hs))
      else hs)"

definition house_adjust_cand_count_up ::
  "SudokuStateObject \<Rightarrow> nat \<Rightarrow> nat \<Rightarrow> 16 word \<Rightarrow> SudokuStateObject" where
  "house_adjust_cand_count_up self x y bits =
     self\<lparr>ss_houses :=
       foldl (cand_count_round 1 (x + ROWOFFSET) (y + COLOFFSET) (CELL_GROUP self x y) bits)
         (ss_houses self) [0..<NUMROWS]\<rparr>"

definition house_adjust_cand_count_down ::
  "SudokuStateObject \<Rightarrow> nat \<Rightarrow> nat \<Rightarrow> 16 word \<Rightarrow> SudokuStateObject" where
  "house_adjust_cand_count_down self x y bits =
     self\<lparr>ss_houses :=
       foldl (cand_count_round (- 1) (x + ROWOFFSET) (y + COLOFFSET) (CELL_GROUP self x y) bits)
         (ss_houses self) [0..<NUMROWS]\<rparr>"

text \<open>
  A loop over the items of a dictionary whose body may raise: the loop stops at the first
  error and keeps what the earlier rounds did.
\<close>

fun dict_loop ::
  "('a \<Rightarrow> 'b \<Rightarrow> 'a \<times> error option) \<Rightarrow> 'a \<Rightarrow> 'b list \<Rightarrow> 'a \<times> error option" where
  "dict_loop body s [] = (s, None)"
| "dict_loop body s (kv # rest) =
     (case body s kv of
        (s', Some e) \<Rightarrow> (s', Some e)
      | (s', None) \<Rightarrow> dict_loop body s' rest)"

text \<open>The keys of the grid in row-major order: the nested loops over \<open>i\<close> and \<open>j\<close>.\<close>

definition all_keys :: "(nat \<times> nat) list" where
  "all_keys = concat (map (\<lambda>i. map (\<lambda>j. (i, j)) [0..<NUMROWS]) [0..<NUMROWS])"

subsection \<open>Pencil marks\<close>

text \<open>\<^verbatim>\<open>SET_BIT(set, bit)\<close> on a \<^verbatim>\<open>uint16_t\<close>, the bit being a cell value.\<close>

definition SET_BIT :: "16 word \<Rightarrow> 16 word \<Rightarrow> 16 word" where
  "SET_BIT bits b = bits OR push_bit (unat b) 1"

text \<open>
  \<^verbatim>\<open>find_clues_in_keyset\<close>: the values of the solved cells of a keyset, as a bit set;
  \<open>ERRORBIT\<close> is set when a key of the keyset is rejected by \<^verbatim>\<open>UNPACK_KEY\<close>, which
  ends the loop.
\<close>

fun find_clues_loop :: "cell_info list \<Rightarrow> (int \<times> int) list \<Rightarrow> 16 word \<Rightarrow> 16 word" where
  "find_clues_loop grid [] clues = clues"
| "find_clues_loop grid (key # keys) clues =
     (case UNPACK_KEY key of
        Inl e \<Rightarrow> clues OR ERRORBIT
      | Inr (x, y) \<Rightarrow>
          find_clues_loop grid keys
            (if CELL_FILLED grid x y then SET_BIT clues (CELL_VALUE grid x y) else clues))"

definition find_clues_in_keyset :: "cell_info list \<Rightarrow> (int \<times> int) list \<Rightarrow> 16 word" where
  "find_clues_in_keyset grid keyset = find_clues_loop grid keyset 0"

text \<open>The two loops over \<open>z\<close> that look at the peers in the row and in the column.\<close>

definition row_clues :: "cell_info list \<Rightarrow> nat \<Rightarrow> nat \<Rightarrow> 16 word \<Rightarrow> 16 word" where
  "row_clues grid n m notcandidates =
     foldl (\<lambda>nc z. if z = m \<or> \<not> CELL_FILLED grid n z then nc
                    else SET_BIT nc (CELL_VALUE grid n z))
       notcandidates [0..<NUMROWS]"

definition col_clues :: "cell_info list \<Rightarrow> nat \<Rightarrow> nat \<Rightarrow> 16 word \<Rightarrow> 16 word" where
  "col_clues grid n m notcandidates =
     foldl (\<lambda>nc z. if z = n \<or> \<not> CELL_FILLED grid z m then nc
                    else SET_BIT nc (CELL_VALUE grid z m))
       notcandidates [0..<NUMROWS]"

text \<open>
  The body of the loops over \<open>n\<close> and \<open>m\<close> in \<^verbatim>\<open>fill_in_pencilmarks\<close>. A missing entry of
  the peers table and a bad key in a keyset make the function return \<open>-1\<close>; what it did
  before stays.
\<close>

definition fill_cell :: "SudokuStateObject \<Rightarrow> nat \<times> nat \<Rightarrow> SudokuStateObject \<times> error option" where
  "fill_cell self key =
     (case key of (n, m) \<Rightarrow>
        if CELL_FILLED (ss_grid self) n m then (self, None)
        else
          let notcandidates = col_clues (ss_grid self) n m (row_clues (ss_grid self) n m 0)
          in if INDEX n m \<ge> length (ss_peers self) then (self, Some ConfigError)
             else
               let q = find_clues_in_keyset (ss_grid self) (ss_peers self ! INDEX n m)
               in if q AND ERRORBIT \<noteq> 0 then (self, Some BadKey)
                  else
                    let s1 = set_CELL_CANDS self n m (NOT (notcandidates OR q) AND TERMS)
                    in (house_adjust_cand_count_up s1 n m (CELL_CANDS (ss_grid s1) n m), None))"

text \<open>
  \<^verbatim>\<open>memset(self->ss_houses[n].hi_cand_count, 0, sizeof(Py_ssize_t))\<close> clears
  \<^verbatim>\<open>sizeof(Py_ssize_t)\<close> bytes: the first entry of the array of nine.
\<close>

definition memset_cand_count :: "house_info \<Rightarrow> house_info" where
  "memset_cand_count h = h\<lparr>hi_cand_count := (hi_cand_count h)[0 := 0]\<rparr>"

definition fill_in_pencilmarks :: "SudokuStateObject \<Rightarrow> SudokuStateObject \<times> error option" where
  "fill_in_pencilmarks self =
     dict_loop fill_cell (self\<lparr>ss_houses := map memset_cand_count (ss_houses self)\<rparr>) all_keys"

subsection \<open>Construction\<close>

text \<open>
  The tables that \<^verbatim>\<open>set_python_calculated_attrs\<close> installs are computed by the
  configuration module, outside this file: they are a parameter of the constructor
  (\<open>None\<close> for no \<^verbatim>\<open>grconfig\<close> argument; a \<^verbatim>\<open>grconfig\<close> equal to the default one gets
  the default tables).
\<close>

record config =
  cf_grconfig :: "nat list"
  cf_peers :: "(int \<times> int) list list"

text \<open>
  Modelled from the spec: the default configuration, which \<^verbatim>\<open>engine.config\<close> builds and
  this file only receives. The groups are the 3x3 boxes arranged in the normal way, and
  the first keyset of a cell's peers holds the other cells of its box.
\<close>

definition default_grconfig :: "nat list" where
  "default_grconfig = map (\<lambda>i. 3 * (ROW i div 3) + COL i div 3) [0..<GRIDSIZE]"

definition box_peers :: "nat \<Rightarrow> nat \<Rightarrow> (int \<times> int) list" where
  "box_peers n m =
     map (\<lambda>(i, j). (int i, int j))
       (filter (\<lambda>k. k \<noteq> (n, m))
          (concat (map (\<lambda>i. map (\<lambda>j. (3 * (n div 3) + i, 3 * (m div 3) + j)) [0..<3]) [0..<3])))"

definition default_peers :: "(int \<times> int) list list" where
  "default_peers = map (\<lambda>(n, m). box_peers n m) all_keys"

definition default_config :: config where
  "default_config = \<lparr>cf_grconfig = default_grconfig, cf_peers = default_peers\<rparr>"

text \<open>The object that \<^verbatim>\<open>PyType_GenericNew\<close> hands to \<^verbatim>\<open>__init__\<close>: all bytes zero.\<close>

definition zero_house :: house_info where
  "zero_house = \<lparr>hi_solved = 0, hi_cand_count = replicate NUMROWS 0\<rparr>"

definition State_new :: SudokuStateObject where
  "State_new =
     \<lparr>ss_solved = 0, ss_digits = replicate NUMROWS 0, ss_digits_past = (\<lambda>i. 0),
      ss_grconfig = [], ss_peers = [],
      ss_skeys = {}, ss_houses = replicate (NUMROWS * 3) zero_house,
      ss_grid = replicate GRIDSIZE \<lparr>ci_group = 0, ci_value = 0, ci_candidates = 0\<rparr>\<rparr>"

definition set_defaults :: "cell_info list \<Rightarrow> cell_info list" where
  "set_defaults grid = map (\<lambda>c. c\<lparr>ci_value := ERRORBIT, ci_candidates := 0\<rparr>) grid"

text \<open>
  \<^verbatim>\<open>set_groups_in_cells\<close>: a cell's group index is the position of its group object in
  \<^verbatim>\<open>found_vals\<close>, the group objects in the order the row-major scan first meets them.
  (\<^verbatim>\<open>found_vals\<close> has room for nine objects; a configuration with more groups is not a
  legal input.)
\<close>

fun first_index :: "nat \<Rightarrow> nat list \<Rightarrow> nat" where
  "first_index v [] = 0"
| "first_index v (u # us) = (if v = u then 0 else Suc (first_index v us))"

fun group_indices :: "nat list \<Rightarrow> nat list \<Rightarrow> nat list" where
  "group_indices [] found_vals = []"
| "group_indices (v # vs) found_vals =
     (first_index v found_vals + GROFFSET) #
       group_indices vs (if v \<in> set found_vals then found_vals else found_vals @ [v])"

definition set_groups_in_cells :: "cell_info list \<Rightarrow> nat list \<Rightarrow> cell_info list option" where
  "set_groups_in_cells grid grconfig =
     (if length grconfig \<noteq> GRIDSIZE then None
      else Some (map (\<lambda>(c, g). c\<lparr>ci_group := g\<rparr>) (zip grid (group_indices grconfig []))))"

text \<open>
  \<^verbatim>\<open>self->ss_digits[d] += k\<close>. With \<open>d \<ge> NUMROWS\<close> the C statement writes behind the array of
  nine counters: the nine counters stay as they are and the word behind the array takes
  the sum. (What the moved pointer \<^verbatim>\<open>ss_grconfig\<close> does to the code that reads it later is
  outside the model.)
\<close>

definition digits_add :: "int \<Rightarrow> nat \<Rightarrow> SudokuStateObject \<Rightarrow> SudokuStateObject" where
  "digits_add k d self =
     (if d < NUMROWS
      then self\<lparr>ss_digits := (ss_digits self)[d := ss_digits self ! d + k]\<rparr>
      else self\<lparr>ss_digits_past :=
             (ss_digits_past self)(d - NUMROWS := ss_digits_past self (d - NUMROWS) + k)\<rparr>)"

text \<open>
  One round of the loop that puts the givens in the grid. The guard lets the value
  \<open>NUMROWS\<close> itself through.
\<close>

definition put_given ::
  "SudokuStateObject \<Rightarrow> (int \<times> int) \<times> int \<Rightarrow> SudokuStateObject \<times> error option" where
  "put_given self kv =
     (case kv of (key, cl) \<Rightarrow>
        if cl < 0 \<or> cl > int NUMROWS then (self, Some BadDigit)
        else
          let s1 = self\<lparr>ss_skeys := insert key (ss_skeys self)\<rparr>
          in case UNPACK_KEY key of
               Inl e \<Rightarrow> (s1, Some e)
             | Inr (x, y) \<Rightarrow>
                 let s2 = set_CELL_VALUE s1 x y (word_of_int cl);
                     s3 = house_adjust_solved_up s2 x y
                 in (digits_add 1 (nat cl) s3, None))"

text \<open>
  \<^verbatim>\<open>__init__\<close> works on the object in place, also when it is called on an object that is
  in use: it returns the object as it has left it, with the error when it returns \<open>-1\<close>.
  It leaves \<open>ss_digits\<close> as it finds it. When a clue is refused, the clues before it are
  in the grid and \<open>ss_solved\<close> is still 0.
\<close>

definition data_State___init___impl ::
  "SudokuStateObject \<Rightarrow> ((int \<times> int) \<times> int) list \<Rightarrow> bool \<Rightarrow> config option
     \<Rightarrow> SudokuStateObject \<times> error option" where
  "data_State___init___impl self clues dofill grconfig =
     (let cfg = (case grconfig of
                   None \<Rightarrow> default_config
                 | Some c \<Rightarrow> if cf_grconfig c = default_grconfig then default_config else c);
          s0 = self\<lparr>ss_skeys := {}, ss_solved := 0, ss_grid := set_defaults (ss_grid self),
                    ss_houses := replicate (NUMROWS * 3) zero_house,
                    ss_grconfig := cf_grconfig cfg, ss_peers := cf_peers cfg\<rparr>
      in case set_groups_in_cells (ss_grid s0) (ss_grconfig s0) of
           None \<Rightarrow> (s0, Some ConfigError)
         | Some grid \<Rightarrow>
             (case dict_loop put_given (s0\<lparr>ss_grid := grid\<rparr>) clues of
                (s1, Some e) \<Rightarrow> (s1, Some e)
              | (s1, None) \<Rightarrow>
                  let s2 = s1\<lparr>ss_solved := int (length clues)\<rparr>
                  in if dofill then fill_in_pencilmarks s2 else (s2, None)))"

text \<open>
  \<^verbatim>\<open>State(clues, dofill, grconfig)\<close>, the call of the type: a fresh object, then
  \<^verbatim>\<open>__init__\<close>; when \<^verbatim>\<open>__init__\<close> fails the call raises its error and the object is dropped.
\<close>

definition State :: "((int \<times> int) \<times> int) list \<Rightarrow> bool \<Rightarrow> config option \<Rightarrow> error + SudokuStateObject" where
  "State clues dofill grconfig =
     (case data_State___init___impl State_new clues dofill grconfig of
        (s, Some e) \<Rightarrow> Inl e
      | (s, None) \<Rightarrow> Inr s)"

subsection \<open>Mutation primitives\<close>

text \<open>A Python object where the code expects a CandidateSet.\<close>

datatype pyobj = PyCandidateSet CandidateSetObject | PyOther

text \<open>The body of the loop of \<^verbatim>\<open>add_candidates\<close>.\<close>

definition add_entry ::
  "SudokuStateObject \<Rightarrow> (int \<times> int) \<times> pyobj \<Rightarrow> SudokuStateObject \<times> error option" where
  "add_entry self kv =
     (case kv of (key, val) \<Rightarrow>
        case val of
          PyOther \<Rightarrow> (self, Some TypeMismatch)
        | PyCandidateSet cs \<Rightarrow>
            (case UNPACK_KEY key of
               Inl e \<Rightarrow> (self, Some e)
             | Inr (x, y) \<Rightarrow>
                 if CELL_FILLED (ss_grid self) x y then (self, Some KeyConflict)
                 else
                   let add_set = cs_set cs;
                       old_set = CELL_CANDS (ss_grid self) x y;
                       intersection = add_set AND old_set;
                       s1 = (if intersection \<noteq> 0
                             then house_adjust_cand_count_down self x y intersection
                             else self);
                       s2 = house_adjust_cand_count_up s1 x y add_set
                   in (set_CELL_CANDS s2 x y (CELL_CANDS (ss_grid s2) x y OR add_set), None)))"

definition data_State_add_candidates ::
  "SudokuStateObject \<Rightarrow> ((int \<times> int) \<times> pyobj) list \<Rightarrow> SudokuStateObject \<times> error option" where
  "data_State_add_candidates self change = dict_loop add_entry self change"

text \<open>
  The body of the loop of \<^verbatim>\<open>remove_candidates\<close>; the second component of the state of
  the loop holds \<^verbatim>\<open>rx, ry\<close> once \<^verbatim>\<open>raise\<close> is set.
\<close>

definition remove_entry ::
  "SudokuStateObject \<times> (nat \<times> nat) option \<Rightarrow> (int \<times> int) \<times> pyobj
     \<Rightarrow> (SudokuStateObject \<times> (nat \<times> nat) option) \<times> error option" where
  "remove_entry acc kv =
     (case acc of (self, raise) \<Rightarrow>
      case kv of (key, val) \<Rightarrow>
        case val of
          PyOther \<Rightarrow> (acc, Some TypeMismatch)
        | PyCandidateSet cs \<Rightarrow>
            (case UNPACK_KEY key of
               Inl e \<Rightarrow> (acc, Some e)
             | Inr (x, y) \<Rightarrow>
                 if CELL_FILLED (ss_grid self) x y then (acc, Some KeyConflict)
                 else
                   let remove_set = cs_set cs;
                       old_set = CELL_CANDS (ss_grid self) x y;
                       not_subset = remove_set AND NOT (remove_set AND old_set);
                       s1 = (if not_subset \<noteq> 0
                             then house_adjust_cand_count_up self x y not_subset
                             else self);
                       s2 = house_adjust_cand_count_down s1 x y remove_set;
                       s3 = set_CELL_CANDS s2 x y (CELL_CANDS (ss_grid s2) x y AND NOT remove_set)
                   in ((s3, if CELL_CANDS (ss_grid s3) x y = 0 then Some (x, y) else raise), None)))"

definition data_State_remove_candidates ::
  "SudokuStateObject \<Rightarrow> ((int \<times> int) \<times> pyobj) list \<Rightarrow> SudokuStateObject \<times> error option" where
  "data_State_remove_candidates self change =
     (case dict_loop remove_entry (self, None) change of
        ((s, raise), Some e) \<Rightarrow> (s, Some e)
      | ((s, None), None) \<Rightarrow> (s, None)
      | ((s, Some (rx, ry)), None) \<Rightarrow> (s, Some (Contradiction rx ry)))"

text \<open>
  Item assignment and deletion of the candidates view; \<open>None\<close> is the null pointer that
  stands for a deletion.
\<close>

definition data_candidates_ass_sub ::
  "SudokuStateObject \<Rightarrow> int \<times> int \<Rightarrow> pyobj option \<Rightarrow> SudokuStateObject \<times> error option" where
  "data_candidates_ass_sub state key cands =
     (case (case cands of None \<Rightarrow> PyCandidateSet (build_set 0) | Some c \<Rightarrow> c) of
        PyOther \<Rightarrow> (state, Some TypeMismatch)
      | PyCandidateSet cs \<Rightarrow>
          (case UNPACK_KEY key of
             Inl e \<Rightarrow> (state, Some e)
           | Inr (x, y) \<Rightarrow>
               if CELL_FILLED (ss_grid state) x y then (state, Some KeyConflict)
               else
                 let new_set = cs_set cs;
                     old_set = CELL_CANDS (ss_grid state) x y;
                     s1 = house_adjust_cand_count_down state x y old_set;
                     s2 = house_adjust_cand_count_up s1 x y new_set
                 in (set_CELL_CANDS s2 x y new_set, None)))"

definition delete_clue :: "SudokuStateObject \<Rightarrow> int \<times> int \<Rightarrow> SudokuStateObject \<times> error option" where
  "delete_clue state key =
     (case UNPACK_KEY key of
        Inl e \<Rightarrow> (state, Some e)
      | Inr (x, y) \<Rightarrow>
          if \<not> CELL_FILLED (ss_grid state) x y then (state, Some KeyConflict)
          else
            let cl = unat (CELL_VALUE (ss_grid state) x y);
                s1 = state\<lparr>ss_skeys := ss_skeys state - {key}\<rparr>;
                s2 = digits_add (- 1) cl s1;
                s3 = house_adjust_solved_down s2 x y;
                s4 = house_adjust_cand_count_up s3 x y (CELL_CANDS (ss_grid s3) x y);
                s5 = set_CELL_VALUE s4 x y (- 1)
            in (s5\<lparr>ss_solved := ss_solved s5 - 1\<rparr>, None))"

definition assign_clue ::
  "SudokuStateObject \<Rightarrow> int \<times> int \<Rightarrow> int \<Rightarrow> SudokuStateObject \<times> error option" where
  "assign_clue state key digit =
     (case UNPACK_KEY key of
        Inl e \<Rightarrow> (state, Some e)
      | Inr (x, y) \<Rightarrow>
          if CELL_FILLED (ss_grid state) x y then (state, Some KeyConflict)
          else
            let s1 = state\<lparr>ss_skeys := insert key (ss_skeys state)\<rparr>;
                s2 = house_adjust_solved_up s1 x y;
                s3 = house_adjust_cand_count_down s2 x y (CELL_CANDS (ss_grid s2) x y);
                s4 = set_CELL_VALUE s3 x y (word_of_int digit);
                s5 = s4\<lparr>ss_solved := ss_solved s4 + 1\<rparr>
            in (digits_add 1 (nat digit) s5, None))"

text \<open>Item assignment and deletion of the clues view.\<close>

definition data_clues_ass_sub ::
  "SudokuStateObject \<Rightarrow> int \<times> int \<Rightarrow> int option \<Rightarrow> SudokuStateObject \<times> error option" where
  "data_clues_ass_sub state key val =
     (case val of
        None \<Rightarrow> delete_clue state key
      | Some digit \<Rightarrow>
          if digit < 0 \<or> digit \<ge> int NUMROWS then (state, Some BadDigit)
          else assign_clue state key digit)"

text \<open>\<^verbatim>\<open>candidates.fill()\<close> and \<^verbatim>\<open>candidates.clear()\<close>.\<close>

definition data_state_candidates_fill_impl :: "SudokuStateObject \<Rightarrow> SudokuStateObject \<times> error option" where
  "data_state_candidates_fill_impl state = fill_in_pencilmarks state"

definition clear_cell :: "SudokuStateObject \<Rightarrow> nat \<times> nat \<Rightarrow> SudokuStateObject" where
  "clear_cell state key =
     (case key of (i, j) \<Rightarrow>
        let bits = CELL_CANDS (ss_grid state) i j
        in if bits > 0
           then set_CELL_CANDS
                  (if \<not> CELL_FILLED (ss_grid state) i j
                   then house_adjust_cand_count_down state i j bits else state) i j 0
           else state)"

definition data_state_candidates_clear_impl :: "SudokuStateObject \<Rightarrow> SudokuStateObject" where
  "data_state_candidates_clear_impl state = foldl clear_cell state all_keys"

subsection \<open>Pickle support\<close>

text \<open>
  \<^verbatim>\<open>build_dict\<close>, for the clues and for the candidates. The dictionaries are filled in
  row-major order.
\<close>

definition key_of :: "nat \<times> nat \<Rightarrow> int \<times> int" where
  "key_of k = (int (fst k), int (snd k))"

definition build_dict_CLUES :: "SudokuStateObject \<Rightarrow> ((int \<times> int) \<times> int) list" where
  "build_dict_CLUES state =
     map (\<lambda>(i, j). (key_of (i, j), uint (CELL_VALUE (ss_grid state) i j)))
       (filter (\<lambda>(i, j). CELL_FILLED (ss_grid state) i j) all_keys)"

definition build_dict_CANDS :: "SudokuStateObject \<Rightarrow> bool \<Rightarrow> ((int \<times> int) \<times> pyobj) list" where
  "build_dict_CANDS state hidden =
     map (\<lambda>(i, j). (key_of (i, j), PyCandidateSet (build_set (CELL_CANDS (ss_grid state) i j))))
       (filter (\<lambda>(i, j). \<not> CELL_FILLED (ss_grid state) i j
                          \<or> (hidden \<and> CELL_CANDS (ss_grid state) i j > 0)) all_keys)"

text \<open>
  \<^verbatim>\<open>Py_BuildValue\<close>, of the Python runtime. Before it builds anything it counts the items
  of its format (\<^verbatim>\<open>countformat\<close> with the end character \<open>NUL\<close>): an opening parenthesis
  raises the nesting level, a closing one lowers it, and a format that ends at a nesting
  level above 0 is refused with a \<^verbatim>\<open>SystemError\<close> (unmatched paren in format). The model
  follows this count; for a format that passes it, the value built is the tuple that
  the arguments make up.
\<close>

primrec countformat :: "string \<Rightarrow> int \<Rightarrow> nat \<Rightarrow> nat option" where
  "countformat [] level count = (if level > 0 then None else Some count)"
| "countformat (c # format) level count =
     (if c \<in> {CHR ''('', CHR ''['', CHR ''{''}
      then countformat format (level + 1) (if level = 0 then count + 1 else count)
      else if c \<in> {CHR '')'', CHR '']'', CHR ''}''}
      then countformat format (level - 1) count
      else if c \<in> {CHR ''#'', CHR ''&'', CHR '','', CHR '':'', CHR '' '', CHR 0x09}
      then countformat format level count
      else countformat format level (if level = 0 then count + 1 else count))"

definition Py_BuildValue :: "string \<Rightarrow> 'a \<Rightarrow> error + 'a" where
  "Py_BuildValue format items =
     (case countformat format 0 0 of
        None \<Rightarrow> Inl SystemError
      | Some n \<Rightarrow> Inr items)"

text \<open>
  \<^verbatim>\<open>__reduce__\<close>: the two dictionaries, then the reduction, built by
  \<^verbatim>\<open>Py_BuildValue("(O(OOO)(OOO)", ...)\<close> from the arguments of the constructor and the
  argument of \<^verbatim>\<open>__setstate__\<close> (the type, the move hook and the dynamic attributes are left
  out of the model).
\<close>

definition data_State___reduce___impl ::
  "SudokuStateObject \<Rightarrow>
     error + ((((int \<times> int) \<times> int) list \<times> bool \<times> config option)
                \<times> ((int \<times> int) \<times> pyobj) list)" where
  "data_State___reduce___impl self =
     (let clues = build_dict_CLUES self;
          cands = build_dict_CANDS self True
      in Py_BuildValue ''(O(OOO)(OOO)''
           ((clues, False,
             if ss_grconfig self = default_grconfig then None
             else Some \<lparr>cf_grconfig = ss_grconfig self, cf_peers = ss_peers self\<rparr>),
            cands))"

definition setstate_entry ::
  "SudokuStateObject \<Rightarrow> (int \<times> int) \<times> pyobj \<Rightarrow> SudokuStateObject \<times> error option" where
  "setstate_entry self kv =
     (case kv of (key, val) \<Rightarrow>
        case val of
          PyOther \<Rightarrow> (self, Some TypeMismatch)
        | PyCandidateSet cs \<Rightarrow>
            (case UNPACK_KEY key of
               Inl e \<Rightarrow> (self, Some e)
             | Inr (x, y) \<Rightarrow>
                 let s1 = set_CELL_CANDS self x y (cs_set cs)
                 in (if \<not> CELL_FILLED (ss_grid s1) x y
                     then house_adjust_cand_count_up s1 x y (cs_set cs) else s1, None)))"

definition data_State___setstate ::
  "SudokuStateObject \<Rightarrow> ((int \<times> int) \<times> pyobj) list \<Rightarrow> SudokuStateObject \<times> error option" where
  "data_State___setstate self cands = dict_loop setstate_entry self cands"

text \<open>
  What unpickling does with a reduction: call the type with the constructor arguments,
  then \<^verbatim>\<open>__setstate__\<close> on the new object.
\<close>

definition restore ::
  "(((int \<times> int) \<times> int) list \<times> bool \<times> config option) \<times> ((int \<times> int) \<times> pyobj) list
     \<Rightarrow> error + SudokuStateObject" where
  "restore reduction =
     (case reduction of ((clues, dofill, grconfig), cands) \<Rightarrow>
        case State clues dofill grconfig of
          Inl e \<Rightarrow> Inl e
        | Inr s \<Rightarrow>
            (case data_State___setstate s cands of
               (s', Some e) \<Rightarrow> Inl e
             | (s', None) \<Rightarrow> Inr s'))"

text \<open>Pickling and unpickling: \<^verbatim>\<open>__reduce__\<close>, then the restoration of what it returned.\<close>

definition snapshot_restore :: "SudokuStateObject \<Rightarrow> error + SudokuStateObject" where
  "snapshot_restore self =
     (case data_State___reduce___impl self of
        Inl e \<Rightarrow> Inl e
      | Inr reduction \<Rightarrow> restore reduction)"

subsection \<open>The rectangle finder\<close>

definition SUBSET :: "16 word \<Rightarrow> 16 word \<Rightarrow> bool" where
  "SUBSET x y \<longleftrightarrow> x OR y = y"

type_synonym rectangle = "CandidateSetObject \<times> ((nat \<times> nat) \<times> (nat \<times> nat) \<times> (nat \<times> nat) \<times> (nat \<times> nat))"

text \<open>
  The body of the inner loop (over the rows \<open>i\<close> below \<open>x\<close>), for the upper right corner
  in column \<open>j\<close>; \<open>tmp\<close> is the intersection of the two upper corners.
\<close>

definition rect_lower ::
  "cell_info list \<Rightarrow> nat \<Rightarrow> nat \<Rightarrow> 16 word \<Rightarrow> 16 word \<Rightarrow> nat \<Rightarrow> nat \<Rightarrow> rectangle list" where
  "rect_lower grid x y required tmp j i =
     (if \<not> CELL_FILLED grid i y then
        (let intersection = tmp AND CELL_CANDS grid i y
         in if intersection \<noteq> 0 \<and> SUBSET required intersection then
              (if \<not> CELL_FILLED grid i j then
                 (let intersection' = intersection AND CELL_CANDS grid i j
                  in if intersection' \<noteq> 0 \<and> SUBSET required intersection'
                     then [(build_set intersection', ((x, y), (x, j), (i, j), (i, y)))]
                     else [])
               else [])
            else [])
      else [])"

text \<open>The body of the outer loop (over the columns \<open>j\<close> right of \<open>y\<close>).\<close>

definition rect_upper ::
  "cell_info list \<Rightarrow> nat \<Rightarrow> nat \<Rightarrow> 16 word \<Rightarrow> 16 word \<Rightarrow> nat \<Rightarrow> rectangle list" where
  "rect_upper grid x y required ul_set j =
     (if \<not> CELL_FILLED grid x j then
        (let intersection = ul_set AND CELL_CANDS grid x j
         in if intersection \<noteq> 0 \<and> SUBSET required intersection
            then concat (map (rect_lower grid x y required intersection j) [x + 1..<NUMROWS])
            else [])
      else [])"

definition find_rectangles_one_key ::
  "SudokuStateObject \<Rightarrow> nat \<Rightarrow> nat \<Rightarrow> CandidateSetObject option \<Rightarrow> error + rectangle list" where
  "find_rectangles_one_key self x y cands =
     (if x = NUMROWS - 1 \<or> y = NUMROWS - 1 then Inl BadCorner
      else if CELL_FILLED (ss_grid self) x y then Inr []
      else
        let required = (case cands of None \<Rightarrow> 0 | Some c \<Rightarrow> cs_set c);
            ul_set = CELL_CANDS (ss_grid self) x y
        in if \<not> SUBSET required ul_set then Inr []
           else Inr (concat (map (rect_upper (ss_grid self) x y required ul_set) [y + 1..<NUMROWS])))"

text \<open>The scan of the whole grid: every unsolved cell outside the last row and column.\<close>

fun find_rectangles_scan ::
  "SudokuStateObject \<Rightarrow> CandidateSetObject option \<Rightarrow> (nat \<times> nat) list \<Rightarrow> rectangle list
     \<Rightarrow> error + rectangle list" where
  "find_rectangles_scan self cands [] temp_storage = Inr temp_storage"
| "find_rectangles_scan self cands ((i, j) # keys) temp_storage =
     (if \<not> CELL_FILLED (ss_grid self) i j then
        (case find_rectangles_one_key self i j cands of
           Inl e \<Rightarrow> Inl e
         | Inr res \<Rightarrow> find_rectangles_scan self cands keys (temp_storage @ res))
      else find_rectangles_scan self cands keys temp_storage)"

definition upper_left_keys :: "(nat \<times> nat) list" where
  "upper_left_keys = concat (map (\<lambda>i. map (\<lambda>j. (i, j)) [0..<NUMROWS - 1]) [0..<NUMROWS - 1])"

text \<open>
  \<^verbatim>\<open>find_rectangles(key, cands)\<close>; \<open>None\<close> stands for an argument that is absent or
  \<^verbatim>\<open>None\<close>.
\<close>

definition data_State_find_rectangles_impl ::
  "SudokuStateObject \<Rightarrow> (int \<times> int) option \<Rightarrow> pyobj option \<Rightarrow> error + rectangle list" where
  "data_State_find_rectangles_impl self key cands =
     (case cands of
        Some PyOther \<Rightarrow> Inl TypeMismatch
      | _ \<Rightarrow>
        let cs = (case cands of Some (PyCandidateSet c) \<Rightarrow> Some c | _ \<Rightarrow> None)
        in case key of
             Some k \<Rightarrow>
               (case UNPACK_KEY k of
                  Inl e \<Rightarrow> Inl e
                | Inr (x, y) \<Rightarrow> find_rectangles_one_key self x y cs)
           | None \<Rightarrow> find_rectangles_scan self cs upper_left_keys [])"

subsection \<open>Key iterators\<close>

text \<open>
  \<^verbatim>\<open>exactly_n_keyiterfunc\<close>: the search for the next key from the position
  \<open>(ki_next_x, ki_next_y)\<close> on; the inner loop starts at \<open>ki_next_y\<close> in the first row it
  looks at and at \<open>0\<close> in the rows after it.
\<close>

function exactly_n_scan :: "cell_info list \<Rightarrow> int \<Rightarrow> nat \<Rightarrow> nat \<Rightarrow> (nat \<times> nat) option" where
  "exactly_n_scan grid n i j =
     (if i < NUMROWS then
        (if j < NUMROWS then
           (if \<not> CELL_FILLED grid i j \<and> isizes (unat (CELL_CANDS grid i j)) = n
            then Some (i, j)
            else exactly_n_scan grid n i (j + 1))
         else exactly_n_scan grid n (i + 1) 0)
      else None)"
  by pat_completeness auto
termination
  by (relation "measures [\<lambda>(grid, n, i, j). NUMROWS - i, \<lambda>(grid, n, i, j). NUMROWS - j]") auto

record KeyIterObject =
  ki_next_x :: nat
  ki_next_y :: nat
  ki_pos :: int

definition exactly_n_keyiterfunc ::
  "cell_info list \<Rightarrow> KeyIterObject \<Rightarrow> (KeyIterObject \<times> (nat \<times> nat)) option" where
  "exactly_n_keyiterfunc grid ki =
     (case exactly_n_scan grid (ki_pos ki) (ki_next_x ki) (ki_next_y ki) of
        None \<Rightarrow> None
      | Some (x, y) \<Rightarrow> Some (ki\<lparr>ki_next_x := x, ki_next_y := y + 1\<rparr>, (x, y)))"

definition data_State_order_exactly_n_impl :: "SudokuStateObject \<Rightarrow> int \<Rightarrow> error + KeyIterObject" where
  "data_State_order_exactly_n_impl self count =
     (if count < 0 \<or> count \<ge> int NUMROWS then Inl BadCount
      else Inr \<lparr>ki_next_x = 0, ki_next_y = 0, ki_pos = count\<rparr>)"

text \<open>
  The keys that the iterator yields, one call of \<^verbatim>\<open>data_KeyIter_iternext\<close> after the other,
  until \<^verbatim>\<open>exactly_n_keyiterfunc\<close> finds no further key (the iterator then drops its
  function and stays exhausted). Every call moves the position forward, which is why the
  sequence is finite.
\<close>

lemma exactly_n_scan_bounds:
  "exactly_n_scan grid n i j = Some (x, y) \<Longrightarrow>
   x < 9 \<and> y < 9 \<and> (i < x \<or> (i = x \<and> j \<le> y))"
proof (induction grid n i j rule: exactly_n_scan.induct)
  case (1 grid n i j)
  show ?case
  proof (cases "i < 9")
    case False
    with "1.prems" show ?thesis by simp
  next
    case i: True
    show ?thesis
    proof (cases "j < 9")
      case False
      with i "1.prems" have "exactly_n_scan grid n (i + 1) 0 = Some (x, y)" by simp
      from "1.IH"(2) [OF i False this] show ?thesis by auto
    next
      case j: True
      show ?thesis
      proof (cases "\<not> CELL_FILLED grid i j \<and> isizes (unat (CELL_CANDS grid i j)) = n")
        case True
        with i j "1.prems" show ?thesis by simp
      next
        case False
        with i j "1.prems" have "exactly_n_scan grid n i (j + 1) = Some (x, y)" by auto
        from "1.IH"(1) [OF i j False this] show ?thesis by auto
      qed
    qed
  qed
qed

function exactly_n_keys :: "cell_info list \<Rightarrow> KeyIterObject \<Rightarrow> (nat \<times> nat) list" where
  "exactly_n_keys grid ki =
     (case exactly_n_keyiterfunc grid ki of
        None \<Rightarrow> []
      | Some (ki', key) \<Rightarrow> key # exactly_n_keys grid ki')"
  by pat_completeness auto
termination
proof (relation "measure (\<lambda>(grid, ki). (9 - ki_next_x ki) * 10 + (10 - ki_next_y ki))")
  show "wf (measure (\<lambda>(grid, ki). (9 - ki_next_x ki) * 10 + (10 - ki_next_y ki)))"
    by simp
next
  fix grid :: "cell_info list" and ki x2 ki' key
  assume "exactly_n_keyiterfunc grid ki = Some x2" "(ki', key) = x2"
  then have f: "exactly_n_keyiterfunc grid ki = Some (ki', key)" by simp
  obtain x y where s: "exactly_n_scan grid (ki_pos ki) (ki_next_x ki) (ki_next_y ki) = Some (x, y)"
    and k: "ki' = ki\<lparr>ki_next_x := x, ki_next_y := y + 1\<rparr>"
  proof (cases "exactly_n_scan grid (ki_pos ki) (ki_next_x ki) (ki_next_y ki)")
    case None
    with f show ?thesis by (simp add: exactly_n_keyiterfunc_def)
  next
    case (Some p)
    obtain x y where p: "p = (x, y)" by (cases p)
    from f Some p have "ki' = ki\<lparr>ki_next_x := x, ki_next_y := y + 1\<rparr>"
      by (simp add: exactly_n_keyiterfunc_def)
    with Some p that show ?thesis by simp
  qed
  from exactly_n_scan_bounds [OF s]
  have b: "x < 9" "y < 9" "ki_next_x ki < x \<or> (ki_next_x ki = x \<and> ki_next_y ki \<le> y)"
    by simp_all
  have "(9 - x) * 10 + (10 - (y + 1)) < (9 - ki_next_x ki) * 10 + (10 - ki_next_y ki)"
    using b by arith
  then show "((grid, ki'), (grid, ki))
      \<in> measure (\<lambda>(grid, ki). (9 - ki_next_x ki) * 10 + (10 - ki_next_y ki))"
    by (simp add: k)
qed







section \<open>The representation invariant and the effect of the primitives\<close>

text \<open>\<^verbatim>\<open>houses[h].hi_cand_count[d]\<close>, the count that \<^verbatim>\<open>candidates_from_house\<close> reports.\<close>

definition cand_count :: "house_info list \<Rightarrow> nat \<Rightarrow> nat \<Rightarrow> int" where
  "cand_count hs h d = hi_cand_count (hs ! h) ! d"

text \<open>
  The shape of a state: 27 houses with nine counters each, 81 cells whose group index is
  one of the nine groups, candidate masks within the low nine bits, and \<open>ss_solved\<close>
  equal to the number of solved cells.
\<close>

definition houses_ok :: "house_info list \<Rightarrow> bool" where
  "houses_ok hs \<longleftrightarrow> length hs = 27 \<and> list_all (\<lambda>h. length (hi_cand_count h) = 9) hs"

definition groups_ok :: "cell_info list \<Rightarrow> bool" where
  "groups_ok grid \<longleftrightarrow> length grid = 81 \<and> list_all (\<lambda>c. ci_group c < 9) grid"

definition masks_ok :: "cell_info list \<Rightarrow> bool" where
  "masks_ok grid \<longleftrightarrow> list_all (\<lambda>c. ci_candidates c AND TERMS = ci_candidates c) grid"

definition solved_ok :: "SudokuStateObject \<Rightarrow> bool" where
  "solved_ok s \<longleftrightarrow>
     ss_solved s = int (length (filter (\<lambda>c. ci_value c AND ERRORBIT = 0) (ss_grid s)))"

definition state_inv :: "SudokuStateObject \<Rightarrow> bool" where
  "state_inv s \<longleftrightarrow>
     groups_ok (ss_grid s) \<and> masks_ok (ss_grid s) \<and> houses_ok (ss_houses s) \<and> solved_ok s"

text \<open>The cell \<open>(x, y)\<close> lies in the house \<open>h\<close>: its row, its column or its group.\<close>

definition in_house :: "SudokuStateObject \<Rightarrow> nat \<Rightarrow> nat \<Rightarrow> nat \<Rightarrow> bool" where
  "in_house s x y h \<longleftrightarrow> h = x + ROWOFFSET \<or> h = y + COLOFFSET \<or> h = CELL_GROUP s x y"

lemma houses_okD:
  "houses_ok hs \<Longrightarrow> length hs = 27"
  "houses_ok hs \<Longrightarrow> h < 27 \<Longrightarrow> length (hi_cand_count (hs ! h)) = 9"
  by (simp_all add: houses_ok_def list_all_length)

lemma length_cand_count_add [simp]: "length (cand_count_add k h i hs) = length hs"
  by (simp add: cand_count_add_def)

lemma nth_cand_count_add:
  "h' < length hs \<Longrightarrow>
   cand_count_add k h i hs ! h'
     = (if h' = h
        then (hs ! h)\<lparr>hi_cand_count := (hi_cand_count (hs ! h))[i := hi_cand_count (hs ! h) ! i + k]\<rparr>
        else hs ! h')"
  by (cases "h' = h") (simp_all add: cand_count_add_def)

lemma houses_ok_cand_count_add:
  "houses_ok hs \<Longrightarrow> houses_ok (cand_count_add k h i hs)"
  by (simp add: houses_ok_def list_all_length nth_cand_count_add)

lemma hi_solved_cand_count_add:
  "h' < length hs \<Longrightarrow> hi_solved (cand_count_add k h i hs ! h') = hi_solved (hs ! h')"
  by (simp add: nth_cand_count_add)

lemma cand_count_cand_count_add:
  "houses_ok hs \<Longrightarrow> h' < 27 \<Longrightarrow> d < 9 \<Longrightarrow>
   cand_count (cand_count_add k h i hs) h' d
     = cand_count hs h' d + (if h' = h \<and> d = i then k else 0)"
  by (simp add: cand_count_def nth_cand_count_add houses_okD nth_list_update)

lemma houses_ok_round:
  "houses_ok hs \<Longrightarrow> houses_ok (cand_count_round k r c g bits hs i)"
  by (simp add: cand_count_round_def houses_ok_cand_count_add)

lemma hi_solved_round:
  "h' < length hs \<Longrightarrow> hi_solved (cand_count_round k r c g bits hs i ! h') = hi_solved (hs ! h')"
  by (simp add: cand_count_round_def hi_solved_cand_count_add)

lemma length_round [simp]: "length (cand_count_round k r c g bits hs i) = length hs"
  by (simp add: cand_count_round_def)

lemma sum3_if:
  fixes k X :: int and h r c g d i :: nat
  assumes "r \<noteq> c" "r \<noteq> g" "c \<noteq> g"
  shows "X + (if h = r \<and> d = i then k else 0)
            + (if h = c \<and> d = i then k else 0) + (if h = g \<and> d = i then k else 0)
     = X + (if d = i \<and> (h = r \<or> h = c \<or> h = g) then k else 0)"
proof (cases "d = i")
  case False
  then show ?thesis by simp
next
  case True
  consider "h = r" | "h = c" | "h = g" | "h \<noteq> r \<and> h \<noteq> c \<and> h \<noteq> g" by blast
  then show ?thesis
  proof cases
    case 1 with assms True show ?thesis by simp
  next
    case 2 with assms True show ?thesis by simp
  next
    case 3 with assms True show ?thesis by simp
  next
    case 4 with True show ?thesis by simp
  qed
qed

lemma cand_count_round:
  assumes "houses_ok hs" "h < 27" "d < 9" "r \<noteq> c" "r \<noteq> g" "c \<noteq> g"
  shows "cand_count (cand_count_round k r c g bits hs i) h d
     = cand_count hs h d + (if bit bits i \<and> d = i \<and> (h = r \<or> h = c \<or> h = g) then k else 0)"
proof (cases "bit bits i")
  case False
  then show ?thesis by (simp add: cand_count_round_def)
next
  case True
  let ?h1 = "cand_count_add k r i hs"
  let ?h2 = "cand_count_add k c i ?h1"
  have ok1: "houses_ok ?h1" and ok2: "houses_ok ?h2"
    using assms(1) by (simp_all add: houses_ok_cand_count_add)
  have a: "cand_count (cand_count_add k g i ?h2) h d
             = cand_count ?h2 h d + (if h = g \<and> d = i then k else 0)"
    by (rule cand_count_cand_count_add [OF ok2 assms(2,3)])
  have b: "cand_count ?h2 h d = cand_count ?h1 h d + (if h = c \<and> d = i then k else 0)"
    by (rule cand_count_cand_count_add [OF ok1 assms(2,3)])
  have c: "cand_count ?h1 h d = cand_count hs h d + (if h = r \<and> d = i then k else 0)"
    by (rule cand_count_cand_count_add [OF assms(1,2,3)])
  have "cand_count (cand_count_add k g i ?h2) h d
          = cand_count hs h d + (if d = i \<and> (h = r \<or> h = c \<or> h = g) then k else 0)"
    unfolding a b c by (rule sum3_if [OF assms(4-6)])
  then show ?thesis using True by (simp add: cand_count_round_def)
qed

lemma houses_ok_foldl_round:
  "houses_ok hs \<Longrightarrow> houses_ok (foldl (cand_count_round k r c g bits) hs ds)"
  by (induction ds arbitrary: hs) (simp_all add: houses_ok_round)

lemma length_foldl_round [simp]:
  "length (foldl (cand_count_round k r c g bits) hs ds) = length hs"
  by (induction ds arbitrary: hs) simp_all

lemma hi_solved_foldl_round:
  "h' < length hs \<Longrightarrow> hi_solved (foldl (cand_count_round k r c g bits) hs ds ! h') = hi_solved (hs ! h')"
  by (induction ds arbitrary: hs) (simp_all add: hi_solved_round)

lemma cand_count_foldl_round:
  assumes "houses_ok hs" "h < 27" "d < 9" "r \<noteq> c" "r \<noteq> g" "c \<noteq> g" "distinct ds"
  shows "cand_count (foldl (cand_count_round k r c g bits) hs ds) h d
     = cand_count hs h d + (if bit bits d \<and> d \<in> set ds \<and> (h = r \<or> h = c \<or> h = g) then k else 0)"
  using assms(1,7)
proof (induction ds arbitrary: hs)
  case Nil
  then show ?case by simp
next
  case (Cons i ds)
  have ok: "houses_ok (cand_count_round k r c g bits hs i)"
    using Cons.prems(1) by (rule houses_ok_round)
  have "cand_count (foldl (cand_count_round k r c g bits) hs (i # ds)) h d
          = cand_count hs h d
            + (if bit bits i \<and> d = i \<and> (h = r \<or> h = c \<or> h = g) then k else 0)
            + (if bit bits d \<and> d \<in> set ds \<and> (h = r \<or> h = c \<or> h = g) then k else 0)"
    using Cons.IH [OF ok] Cons.prems(2)
    by (simp add: cand_count_round [OF Cons.prems(1) assms(2-6)])
  also have "\<dots> = cand_count hs h d
            + (if bit bits d \<and> d \<in> set (i # ds) \<and> (h = r \<or> h = c \<or> h = g) then k else 0)"
  proof (cases "d = i")
    case True
    with Cons.prems(2) show ?thesis by simp
  next
    case False
    then show ?thesis by simp
  qed
  finally show ?case .
qed

lemma INDEX_less: "x < 9 \<Longrightarrow> y < 9 \<Longrightarrow> INDEX x y < 81"
  by (simp add: INDEX_def)

lemma INDEX_inj: "y < 9 \<Longrightarrow> y' < 9 \<Longrightarrow> INDEX x y = INDEX x' y' \<longleftrightarrow> x = x' \<and> y = y'"
proof
  assume a: "y < 9" "y' < 9" "INDEX x y = INDEX x' y'"
  then have "(x * 9 + y) div 9 = (x' * 9 + y') div 9" "(x * 9 + y) mod 9 = (x' * 9 + y') mod 9"
    by (simp_all add: INDEX_def)
  with a(1,2) show "x = x' \<and> y = y'" by simp
qed simp

lemma groups_okD:
  "groups_ok grid \<Longrightarrow> length grid = 81"
  "groups_ok grid \<Longrightarrow> i < 81 \<Longrightarrow> ci_group (grid ! i) < 9"
  by (simp_all add: groups_ok_def list_all_length)

lemma CELL_GROUP_less:
  "groups_ok (ss_grid s) \<Longrightarrow> x < 9 \<Longrightarrow> y < 9 \<Longrightarrow> CELL_GROUP s x y < 9"
  by (simp add: CELL_GROUP_def groups_okD INDEX_less)

text \<open>The frame of the house adjustments: they touch \<open>ss_houses\<close> only.\<close>

lemma adjust_frame [simp]:
  "ss_grid (house_adjust_cand_count_up s x y bits) = ss_grid s"
  "ss_grid (house_adjust_cand_count_down s x y bits) = ss_grid s"
  "ss_grid (house_adjust_solved_up s x y) = ss_grid s"
  "ss_grid (house_adjust_solved_down s x y) = ss_grid s"
  "ss_solved (house_adjust_cand_count_up s x y bits) = ss_solved s"
  "ss_solved (house_adjust_cand_count_down s x y bits) = ss_solved s"
  "ss_solved (house_adjust_solved_up s x y) = ss_solved s"
  "ss_solved (house_adjust_solved_down s x y) = ss_solved s"
  by (simp_all add: house_adjust_cand_count_up_def house_adjust_cand_count_down_def
        house_adjust_solved_up_def house_adjust_solved_down_def)

lemma adjust_CELL_GROUP [simp]:
  "CELL_GROUP (house_adjust_cand_count_up s x y bits) x' y' = CELL_GROUP s x' y'"
  "CELL_GROUP (house_adjust_cand_count_down s x y bits) x' y' = CELL_GROUP s x' y'"
  by (simp_all add: CELL_GROUP_def)

lemma adjust_in_house [simp]:
  "in_house (house_adjust_cand_count_up s x y bits) x' y' h = in_house s x' y' h"
  "in_house (house_adjust_cand_count_down s x y bits) x' y' h = in_house s x' y' h"
  by (simp_all add: in_house_def)

lemma houses_ok_adjust:
  "houses_ok (ss_houses s) \<Longrightarrow> houses_ok (ss_houses (house_adjust_cand_count_up s x y bits))"
  "houses_ok (ss_houses s) \<Longrightarrow> houses_ok (ss_houses (house_adjust_cand_count_down s x y bits))"
  by (simp_all add: house_adjust_cand_count_up_def house_adjust_cand_count_down_def
        houses_ok_foldl_round)

lemma length_adjust [simp]:
  "length (ss_houses (house_adjust_cand_count_up s x y bits)) = length (ss_houses s)"
  "length (ss_houses (house_adjust_cand_count_down s x y bits)) = length (ss_houses s)"
  by (simp_all add: house_adjust_cand_count_up_def house_adjust_cand_count_down_def)

lemma hi_solved_adjust:
  "h < length (ss_houses s) \<Longrightarrow>
   hi_solved (ss_houses (house_adjust_cand_count_up s x y bits) ! h) = hi_solved (ss_houses s ! h)"
  "h < length (ss_houses s) \<Longrightarrow>
   hi_solved (ss_houses (house_adjust_cand_count_down s x y bits) ! h) = hi_solved (ss_houses s ! h)"
  by (simp_all add: house_adjust_cand_count_up_def house_adjust_cand_count_down_def
        hi_solved_foldl_round)

lemma cand_count_adjust_up:
  assumes "houses_ok (ss_houses s)" "groups_ok (ss_grid s)" "x < 9" "y < 9" "h < 27" "d < 9"
  shows "cand_count (ss_houses (house_adjust_cand_count_up s x y bits)) h d
     = cand_count (ss_houses s) h d + (if bit bits d \<and> in_house s x y h then 1 else 0)"
proof -
  have g: "CELL_GROUP s x y < 9" using assms(2-4) by (rule CELL_GROUP_less)
  have ne: "x + 18 \<noteq> y + 9" "x + 18 \<noteq> CELL_GROUP s x y" "y + 9 \<noteq> CELL_GROUP s x y"
    using g assms(4) by simp_all
  have d: "d \<in> set [0..<9]" using assms(6) by simp
  show ?thesis
    unfolding house_adjust_cand_count_up_def
    using cand_count_foldl_round [OF assms(1,5,6) ne, of "[0..<9]" 1 bits] d
    by (simp add: in_house_def)
qed

lemma cand_count_adjust_down:
  assumes "houses_ok (ss_houses s)" "groups_ok (ss_grid s)" "x < 9" "y < 9" "h < 27" "d < 9"
  shows "cand_count (ss_houses (house_adjust_cand_count_down s x y bits)) h d
     = cand_count (ss_houses s) h d + (if bit bits d \<and> in_house s x y h then - 1 else 0)"
proof -
  have g: "CELL_GROUP s x y < 9" using assms(2-4) by (rule CELL_GROUP_less)
  have ne: "x + 18 \<noteq> y + 9" "x + 18 \<noteq> CELL_GROUP s x y" "y + 9 \<noteq> CELL_GROUP s x y"
    using g assms(4) by simp_all
  have d: "d \<in> set [0..<9]" using assms(6) by simp
  show ?thesis
    unfolding house_adjust_cand_count_down_def
    using cand_count_foldl_round [OF assms(1,5,6) ne, of "[0..<9]" "- 1" bits] d
    by (simp add: in_house_def)
qed

text \<open>Assignments to a cell.\<close>

lemma set_CELL_CANDS_frame [simp]:
  "ss_houses (set_CELL_CANDS s x y m) = ss_houses s"
  "ss_solved (set_CELL_CANDS s x y m) = ss_solved s"
  "length (ss_grid (set_CELL_CANDS s x y m)) = length (ss_grid s)"
  by (simp_all add: set_CELL_CANDS_def)

lemma nth_set_CELL_CANDS:
  "j < length (ss_grid s) \<Longrightarrow>
   ss_grid (set_CELL_CANDS s x y m) ! j
     = (if j = INDEX x y then (ss_grid s ! j)\<lparr>ci_candidates := m\<rparr> else ss_grid s ! j)"
  by (cases "j = INDEX x y") (simp_all add: set_CELL_CANDS_def)

lemma set_CELL_VALUE_frame [simp]:
  "ss_houses (set_CELL_VALUE s x y v) = ss_houses s"
  "ss_solved (set_CELL_VALUE s x y v) = ss_solved s"
  "length (ss_grid (set_CELL_VALUE s x y v)) = length (ss_grid s)"
  by (simp_all add: set_CELL_VALUE_def)

lemma nth_set_CELL_VALUE:
  "j < length (ss_grid s) \<Longrightarrow>
   ss_grid (set_CELL_VALUE s x y v) ! j
     = (if j = INDEX x y then (ss_grid s ! j)\<lparr>ci_value := v\<rparr> else ss_grid s ! j)"
  by (cases "j = INDEX x y") (simp_all add: set_CELL_VALUE_def)

subsection \<open>\<^verbatim>\<open>add_candidates\<close> and \<^verbatim>\<open>remove_candidates\<close>\<close>

text \<open>
  An item of a change dictionary whose key is in range and names an unsolved cell and
  whose value is a CandidateSet.
\<close>

definition valid_entry :: "SudokuStateObject \<Rightarrow> (int \<times> int) \<times> pyobj \<Rightarrow> bool" where
  "valid_entry s kv \<longleftrightarrow>
     (case kv of (key, v) \<Rightarrow>
        case v of
          PyOther \<Rightarrow> False
        | PyCandidateSet cs \<Rightarrow>
            (case UNPACK_KEY key of
               Inl e \<Rightarrow> False
             | Inr (x, y) \<Rightarrow> \<not> CELL_FILLED (ss_grid s) x y))"

lemma valid_entryE:
  assumes "valid_entry s (key, v)"
  obtains x y cs where "key = (int x, int y)" "x < 9" "y < 9" "v = PyCandidateSet cs"
    "UNPACK_KEY key = Inr (x, y)" "\<not> CELL_FILLED (ss_grid s) x y"
proof -
  obtain kx ky where key: "key = (kx, ky)" by (cases key)
  from assms obtain cs where v: "v = PyCandidateSet cs"
    by (cases v) (simp_all add: valid_entry_def)
  from assms key v have r: "0 \<le> kx" "kx < 9" "0 \<le> ky" "ky < 9"
    by (auto simp add: valid_entry_def UNPACK_KEY_def split: if_splits)
  then have u: "UNPACK_KEY key = Inr (nat kx, nat ky)"
    by (simp add: UNPACK_KEY_def key)
  with assms v have "\<not> CELL_FILLED (ss_grid s) (nat kx) (nat ky)"
    by (simp add: valid_entry_def)
  with r u v key show ?thesis
    by (intro that [of "nat kx" "nat ky" cs]) simp_all
qed

lemma add_entry_eq:
  assumes "UNPACK_KEY key = Inr (x, y)" "\<not> CELL_FILLED (ss_grid s) x y"
  shows "add_entry s (key, PyCandidateSet cs)
     = (set_CELL_CANDS
          (house_adjust_cand_count_up
             (if cs_set cs AND CELL_CANDS (ss_grid s) x y \<noteq> 0
              then house_adjust_cand_count_down s x y (cs_set cs AND CELL_CANDS (ss_grid s) x y)
              else s) x y (cs_set cs))
          x y (CELL_CANDS (ss_grid s) x y OR cs_set cs), None)"
  using assms by (simp add: add_entry_def Let_def CELL_CANDS_def)

lemma add_entry_count:
  assumes "houses_ok (ss_houses s)" "groups_ok (ss_grid s)" "x < 9" "y < 9" "h < 27" "d < 9"
    and "UNPACK_KEY key = Inr (x, y)" "\<not> CELL_FILLED (ss_grid s) x y"
  shows "cand_count (ss_houses (fst (add_entry s (key, PyCandidateSet cs)))) h d
     = cand_count (ss_houses s) h d
       + (if in_house s x y h \<and> bit (cs_set cs) d \<and> \<not> bit (CELL_CANDS (ss_grid s) x y) d
          then 1 else 0)"
proof -
  let ?old = "CELL_CANDS (ss_grid s) x y"
  let ?inter = "cs_set cs AND ?old"
  let ?s1 = "if ?inter \<noteq> 0 then house_adjust_cand_count_down s x y ?inter else s"
  have s1: "houses_ok (ss_houses ?s1)" "groups_ok (ss_grid ?s1)" "in_house ?s1 x y h = in_house s x y h"
    using assms(1,2) by (simp_all add: houses_ok_adjust)
  have c1: "cand_count (ss_houses ?s1) h d
      = cand_count (ss_houses s) h d + (if bit ?inter d \<and> in_house s x y h then - 1 else 0)"
  proof (cases "?inter = 0")
    case True
    then show ?thesis by simp
  next
    case False
    then show ?thesis by (simp add: cand_count_adjust_down [OF assms(1-6)])
  qed
  have "cand_count (ss_houses (fst (add_entry s (key, PyCandidateSet cs)))) h d
      = cand_count (ss_houses ?s1) h d + (if bit (cs_set cs) d \<and> in_house s x y h then 1 else 0)"
    unfolding add_entry_eq [OF assms(7,8)]
    using cand_count_adjust_up [OF s1(1,2) assms(3-6), of "cs_set cs"] s1(3)
    by simp
  also have "\<dots> = cand_count (ss_houses s) h d
       + (if in_house s x y h \<and> bit (cs_set cs) d \<and> \<not> bit ?old d then 1 else 0)"
    unfolding c1
    by (cases "in_house s x y h"; cases "bit (cs_set cs) d"; cases "bit ?old d")
      (simp_all add: bit_and_iff)
  finally show ?thesis .
qed

lemma add_entry_grid:
  assumes "UNPACK_KEY key = Inr (x, y)" "\<not> CELL_FILLED (ss_grid s) x y"
  shows "ss_grid (fst (add_entry s (key, PyCandidateSet cs)))
     = (ss_grid s)[INDEX x y := (ss_grid s ! INDEX x y)\<lparr>ci_candidates := CELL_CANDS (ss_grid s) x y OR cs_set cs\<rparr>]"
    and "snd (add_entry s (key, PyCandidateSet cs)) = None"
    and "houses_ok (ss_houses s) \<Longrightarrow> houses_ok (ss_houses (fst (add_entry s (key, PyCandidateSet cs))))"
    and "ss_solved (fst (add_entry s (key, PyCandidateSet cs))) = ss_solved s"
  unfolding add_entry_eq [OF assms]
  by (simp_all add: set_CELL_CANDS_def houses_ok_adjust)

lemma set_CELL_CANDS_cells [simp]:
  "CELL_VALUE (ss_grid (set_CELL_CANDS s x y m)) x' y' = CELL_VALUE (ss_grid s) x' y'"
  "CELL_FILLED (ss_grid (set_CELL_CANDS s x y m)) x' y' = CELL_FILLED (ss_grid s) x' y'"
  "CELL_GROUP (set_CELL_CANDS s x y m) x' y' = CELL_GROUP s x' y'"
  "in_house (set_CELL_CANDS s x y m) x' y' h = in_house s x' y' h"
proof -
  have *: "ci_value (ss_grid (set_CELL_CANDS s x y m) ! j) = ci_value (ss_grid s ! j)"
          "ci_group (ss_grid (set_CELL_CANDS s x y m) ! j) = ci_group (ss_grid s ! j)" for j
  proof -
    show "ci_value (ss_grid (set_CELL_CANDS s x y m) ! j) = ci_value (ss_grid s ! j)"
      by (cases "j = INDEX x y"; cases "INDEX x y < length (ss_grid s)")
        (simp_all add: set_CELL_CANDS_def list_update_beyond)
    show "ci_group (ss_grid (set_CELL_CANDS s x y m) ! j) = ci_group (ss_grid s ! j)"
      by (cases "j = INDEX x y"; cases "INDEX x y < length (ss_grid s)")
        (simp_all add: set_CELL_CANDS_def list_update_beyond)
  qed
  show "CELL_VALUE (ss_grid (set_CELL_CANDS s x y m)) x' y' = CELL_VALUE (ss_grid s) x' y'"
    by (simp add: CELL_VALUE_def *)
  then show "CELL_FILLED (ss_grid (set_CELL_CANDS s x y m)) x' y' = CELL_FILLED (ss_grid s) x' y'"
    by (simp add: CELL_FILLED_def)
  show g: "CELL_GROUP (set_CELL_CANDS s x y m) x' y' = CELL_GROUP s x' y'"
    by (simp add: CELL_GROUP_def *)
  show "in_house (set_CELL_CANDS s x y m) x' y' h = in_house s x' y' h"
    by (simp add: in_house_def g)
qed

lemma CELL_CANDS_set_CELL_CANDS:
  assumes "length (ss_grid s) = 81" "x < 9" "y < 9" "y' < 9"
  shows "CELL_CANDS (ss_grid (set_CELL_CANDS s x y m)) x' y'
     = (if x' = x \<and> y' = y then m else CELL_CANDS (ss_grid s) x' y')"
proof (cases "x' = x \<and> y' = y")
  case True
  then show ?thesis
    using assms INDEX_less [of x y] by (simp add: CELL_CANDS_def set_CELL_CANDS_def)
next
  case False
  then have "INDEX x y \<noteq> INDEX x' y'"
    using INDEX_inj [OF assms(3,4), of x x'] by blast
  with False show ?thesis
    by (auto simp add: CELL_CANDS_def set_CELL_CANDS_def)
qed

lemma groups_ok_set_CELL_CANDS:
  "groups_ok (ss_grid s) \<Longrightarrow> groups_ok (ss_grid (set_CELL_CANDS s x y m))"
  by (simp add: groups_ok_def list_all_length nth_set_CELL_CANDS)

text \<open>
  The set that a change dictionary holds for the cell \<open>(x, y)\<close> (empty when it has no
  item for the cell), and the test that an item brings the digit \<open>d\<close> into a cell of the
  house \<open>h\<close> that did not have it: \<open>d\<close> is in \<open>add \<setminus> old\<close>.
\<close>

definition added_mask :: "((int \<times> int) \<times> pyobj) list \<Rightarrow> nat \<Rightarrow> nat \<Rightarrow> 16 word" where
  "added_mask change x y =
     (case map_of change (int x, int y) of Some (PyCandidateSet cs) \<Rightarrow> cs_set cs | _ \<Rightarrow> 0)"

definition newly_added :: "SudokuStateObject \<Rightarrow> nat \<Rightarrow> nat \<Rightarrow> (int \<times> int) \<times> pyobj \<Rightarrow> bool" where
  "newly_added s h d kv \<longleftrightarrow>
     (case kv of (key, v) \<Rightarrow>
        case v of
          PyOther \<Rightarrow> False
        | PyCandidateSet cs \<Rightarrow>
            (case UNPACK_KEY key of
               Inl e \<Rightarrow> False
             | Inr (x, y) \<Rightarrow>
                 in_house s x y h \<and> bit (cs_set cs) d \<and> \<not> bit (CELL_CANDS (ss_grid s) x y) d))"

lemma valid_entry_cong:
  "(\<And>x y. CELL_FILLED (ss_grid s') x y = CELL_FILLED (ss_grid s) x y)
   \<Longrightarrow> valid_entry s' kv = valid_entry s kv"
  by (simp add: valid_entry_def split: prod.splits pyobj.splits sum.splits)

lemma add_loop:
  assumes "houses_ok (ss_houses s)" "groups_ok (ss_grid s)"
    and "distinct (map fst change)" "list_all (valid_entry s) change"
  shows "snd (dict_loop add_entry s change) = None
    \<and> houses_ok (ss_houses (fst (dict_loop add_entry s change)))
    \<and> groups_ok (ss_grid (fst (dict_loop add_entry s change)))
    \<and> ss_solved (fst (dict_loop add_entry s change)) = ss_solved s
    \<and> (\<forall>x y. CELL_FILLED (ss_grid (fst (dict_loop add_entry s change))) x y
               = CELL_FILLED (ss_grid s) x y)
    \<and> (\<forall>x y h. in_house (fst (dict_loop add_entry s change)) x y h = in_house s x y h)
    \<and> (\<forall>h<27. hi_solved (ss_houses (fst (dict_loop add_entry s change)) ! h)
               = hi_solved (ss_houses s ! h))
    \<and> (\<forall>x<9. \<forall>y<9. CELL_CANDS (ss_grid (fst (dict_loop add_entry s change))) x y
               = CELL_CANDS (ss_grid s) x y OR added_mask change x y)
    \<and> (\<forall>h<27. \<forall>d<9. cand_count (ss_houses (fst (dict_loop add_entry s change))) h d
               = cand_count (ss_houses s) h d
                 + int (length (filter (newly_added s h d) change)))"
  using assms
proof (induction change arbitrary: s)
  case Nil
  then show ?case by (simp add: added_mask_def)
next
  case (Cons kv rest)
  obtain key v where kv: "kv = (key, v)" by (cases kv)
  from Cons.prems(4) kv have "valid_entry s (key, v)" by simp
  then obtain x y cs where xy: "key = (int x, int y)" "x < 9" "y < 9" "v = PyCandidateSet cs"
    "UNPACK_KEY key = Inr (x, y)" "\<not> CELL_FILLED (ss_grid s) x y"
    by (rule valid_entryE)
  let ?old = "CELL_CANDS (ss_grid s) x y"
  let ?s0 = "if cs_set cs AND ?old \<noteq> 0
             then house_adjust_cand_count_down s x y (cs_set cs AND ?old) else s"
  define s1 where "s1 = fst (add_entry s kv)"
  have s1_eq: "s1 = set_CELL_CANDS (house_adjust_cand_count_up ?s0 x y (cs_set cs)) x y (?old OR cs_set cs)"
    unfolding s1_def kv xy(4) add_entry_eq [OF xy(5,6)] by simp
  have step: "add_entry s kv = (s1, None)"
    unfolding s1_def kv xy(4) add_entry_eq [OF xy(5,6)] by simp
  have len: "length (ss_grid s) = 81" using Cons.prems(2) by (rule groups_okD)
  have h1: "houses_ok (ss_houses s1)"
    unfolding s1_eq using Cons.prems(1) by (simp add: houses_ok_adjust)
  have g1: "groups_ok (ss_grid s1)"
    unfolding s1_eq using Cons.prems(2) by (simp add: groups_ok_set_CELL_CANDS)
  have f1: "CELL_FILLED (ss_grid s1) x' y' = CELL_FILLED (ss_grid s) x' y'" for x' y'
    unfolding s1_eq by simp
  have i1: "in_house s1 x' y' h = in_house s x' y' h" for x' y' h
    unfolding s1_eq by simp
  have sv1: "ss_solved s1 = ss_solved s"
    unfolding s1_eq by simp
  have hs1: "hi_solved (ss_houses s1 ! h) = hi_solved (ss_houses s ! h)" if "h < 27" for h
    unfolding s1_eq using that houses_okD(1) [OF Cons.prems(1)]
    by (simp add: hi_solved_adjust)
  have c1: "CELL_CANDS (ss_grid s1) x' y'
      = (if x' = x \<and> y' = y then ?old OR cs_set cs else CELL_CANDS (ss_grid s) x' y')"
    if "y' < 9" for x' y'
  proof -
    have "length (ss_grid (house_adjust_cand_count_up ?s0 x y (cs_set cs))) = 81"
      using len by simp
    from CELL_CANDS_set_CELL_CANDS [OF this xy(2,3) that]
    show ?thesis unfolding s1_eq by (simp add: CELL_CANDS_def)
  qed
  have n1: "cand_count (ss_houses s1) h d
      = cand_count (ss_houses s) h d + (if newly_added s h d kv then 1 else 0)"
    if "h < 27" "d < 9" for h d
    unfolding s1_def kv xy(4)
    using add_entry_count [OF Cons.prems(1,2) xy(2,3) that xy(5,6), of cs]
    by (simp add: newly_added_def xy(5))
  have d_rest: "distinct (map fst rest)" and key_rest: "key \<notin> fst ` set rest"
    using Cons.prems(3) kv by simp_all
  have "valid_entry s1 = valid_entry s"
    by (rule ext) (rule valid_entry_cong, rule f1)
  then have v_rest: "list_all (valid_entry s1) rest"
    using Cons.prems(4) by simp
  note IH = Cons.IH [OF h1 g1 d_rest v_rest]
  have loop: "dict_loop add_entry s (kv # rest) = dict_loop add_entry s1 rest"
    by (simp add: step)
  let ?s' = "fst (dict_loop add_entry s1 rest)"
  have mask: "CELL_CANDS (ss_grid ?s') x' y' = CELL_CANDS (ss_grid s) x' y' OR added_mask (kv # rest) x' y'"
    if "x' < 9" "y' < 9" for x' y'
  proof (cases "x' = x \<and> y' = y")
    case True
    have "map_of rest key = None"
      using key_rest by (simp add: map_of_eq_None_iff)
    then have "added_mask rest x y = 0" "added_mask (kv # rest) x y = cs_set cs"
      by (simp_all add: added_mask_def kv xy(1,4))
    with IH that True c1 [OF that(2), of x'] show ?thesis by simp
  next
    case False
    then have "added_mask (kv # rest) x' y' = added_mask rest x' y'"
      by (auto simp add: added_mask_def kv xy(1))
    moreover have "CELL_CANDS (ss_grid s1) x' y' = CELL_CANDS (ss_grid s) x' y'"
      unfolding c1 [OF that(2)] using False by (rule if_not_P)
    ultimately show ?thesis using IH that by simp
  qed
  have same: "newly_added s1 h d e = newly_added s h d e" if "e \<in> set rest" for h d e
  proof -
    obtain k' v' where e: "e = (k', v')" by (cases e)
    from that Cons.prems(4) e have "valid_entry s (k', v')"
      by (simp add: list_all_iff)
    then obtain x' y' cs' where e': "k' = (int x', int y')" "x' < 9" "y' < 9" "v' = PyCandidateSet cs'"
      "UNPACK_KEY k' = Inr (x', y')"
      by (rule valid_entryE)
    from that e key_rest have "k' \<noteq> key" by force
    with e'(1) xy(1) have "\<not> (x' = x \<and> y' = y)" by auto
    then have "CELL_CANDS (ss_grid s1) x' y' = CELL_CANDS (ss_grid s) x' y'"
      unfolding c1 [OF e'(3)] by (rule if_not_P)
    then show ?thesis
      by (simp add: newly_added_def e e'(4,5) i1)
  qed
  have count: "cand_count (ss_houses ?s') h d
      = cand_count (ss_houses s) h d + int (length (filter (newly_added s h d) (kv # rest)))"
    if "h < 27" "d < 9" for h d
  proof -
    have "filter (newly_added s1 h d) rest = filter (newly_added s h d) rest"
      by (rule filter_cong) (simp_all add: same)
    with IH n1 [OF that] that show ?thesis by simp
  qed
  from IH have rest_facts:
    "snd (dict_loop add_entry s1 rest) = None"
    "houses_ok (ss_houses ?s')" "groups_ok (ss_grid ?s')" "ss_solved ?s' = ss_solved s1"
    "\<And>x y. CELL_FILLED (ss_grid ?s') x y = CELL_FILLED (ss_grid s1) x y"
    "\<And>x y h. in_house ?s' x y h = in_house s1 x y h"
    "\<And>h. h < 27 \<Longrightarrow> hi_solved (ss_houses ?s' ! h) = hi_solved (ss_houses s1 ! h)"
    by simp_all
  show ?case
    unfolding loop
    using rest_facts mask count
    by (simp add: f1 i1 sv1 hs1)
qed

lemma state_invD:
  "state_inv s \<Longrightarrow> groups_ok (ss_grid s)"
  "state_inv s \<Longrightarrow> masks_ok (ss_grid s)"
  "state_inv s \<Longrightarrow> houses_ok (ss_houses s)"
  "state_inv s \<Longrightarrow> solved_ok s"
  by (simp_all add: state_inv_def)

lemma SUBSET_bit: "SUBSET a b \<Longrightarrow> bit a d \<Longrightarrow> bit b d"
proof -
  assume "SUBSET a b" "bit a d"
  then have "bit (a OR b) d" by (simp add: bit_or_iff)
  with \<open>SUBSET a b\<close> show "bit b d" by (simp add: SUBSET_def)
qed

lemma SUBSET_OR: "SUBSET a b \<Longrightarrow> b OR a = b"
  by (simp add: SUBSET_def or.commute)


text \<open>
  For \<^verbatim>\<open>remove_candidates\<close>: the set that the change holds for a cell, the test that an
  item takes the digit \<open>d\<close> away from a cell of the house \<open>h\<close> that had it (\<open>d\<close> is in
  \<open>rem \<inter> old\<close>), the test that an item leaves its cell without candidates, and the
  coordinates of the last item of the change that does.
\<close>

definition removed_mask :: "((int \<times> int) \<times> pyobj) list \<Rightarrow> nat \<Rightarrow> nat \<Rightarrow> 16 word" where
  "removed_mask change x y =
     (case map_of change (int x, int y) of Some (PyCandidateSet cs) \<Rightarrow> cs_set cs | _ \<Rightarrow> 0)"

definition removed_present :: "SudokuStateObject \<Rightarrow> nat \<Rightarrow> nat \<Rightarrow> (int \<times> int) \<times> pyobj \<Rightarrow> bool" where
  "removed_present s h d kv \<longleftrightarrow>
     (case kv of (key, v) \<Rightarrow>
        case v of
          PyOther \<Rightarrow> False
        | PyCandidateSet cs \<Rightarrow>
            (case UNPACK_KEY key of
               Inl e \<Rightarrow> False
             | Inr (x, y) \<Rightarrow>
                 in_house s x y h \<and> bit (cs_set cs) d \<and> bit (CELL_CANDS (ss_grid s) x y) d))"

definition empties :: "SudokuStateObject \<Rightarrow> (int \<times> int) \<times> pyobj \<Rightarrow> bool" where
  "empties s kv \<longleftrightarrow>
     (case kv of (key, v) \<Rightarrow>
        case v of
          PyOther \<Rightarrow> False
        | PyCandidateSet cs \<Rightarrow>
            (case UNPACK_KEY key of
               Inl e \<Rightarrow> False
             | Inr (x, y) \<Rightarrow> CELL_CANDS (ss_grid s) x y AND NOT (cs_set cs) = 0))"

definition contradiction_site ::
  "SudokuStateObject \<Rightarrow> ((int \<times> int) \<times> pyobj) list \<Rightarrow> (nat \<times> nat) option" where
  "contradiction_site s change =
     (case filter (empties s) change of
        [] \<Rightarrow> None
      | e # es \<Rightarrow> Some (nat (fst (fst (last (e # es)))), nat (snd (fst (last (e # es))))))"

lemma remove_entry_eq:
  assumes "UNPACK_KEY key = Inr (x, y)" "\<not> CELL_FILLED (ss_grid s) x y"
  shows "remove_entry (s, raise) (key, PyCandidateSet cs)
     = ((set_CELL_CANDS
          (house_adjust_cand_count_down
             (if cs_set cs AND NOT (cs_set cs AND CELL_CANDS (ss_grid s) x y) \<noteq> 0
              then house_adjust_cand_count_up s x y
                     (cs_set cs AND NOT (cs_set cs AND CELL_CANDS (ss_grid s) x y))
              else s) x y (cs_set cs))
          x y (CELL_CANDS (ss_grid s) x y AND NOT (cs_set cs)),
         if CELL_CANDS (ss_grid (set_CELL_CANDS
          (house_adjust_cand_count_down
             (if cs_set cs AND NOT (cs_set cs AND CELL_CANDS (ss_grid s) x y) \<noteq> 0
              then house_adjust_cand_count_up s x y
                     (cs_set cs AND NOT (cs_set cs AND CELL_CANDS (ss_grid s) x y))
              else s) x y (cs_set cs))
          x y (CELL_CANDS (ss_grid s) x y AND NOT (cs_set cs)))) x y = 0
         then Some (x, y) else raise), None)"
  using assms by (simp add: remove_entry_def Let_def CELL_CANDS_def)

lemma remove_entry_count:
  assumes "houses_ok (ss_houses s)" "groups_ok (ss_grid s)" "x < 9" "y < 9" "h < 27" "d < 9"
    and "UNPACK_KEY key = Inr (x, y)" "\<not> CELL_FILLED (ss_grid s) x y"
  shows "cand_count (ss_houses (fst (fst (remove_entry (s, raise) (key, PyCandidateSet cs))))) h d
     = cand_count (ss_houses s) h d
       - (if in_house s x y h \<and> bit (cs_set cs) d \<and> bit (CELL_CANDS (ss_grid s) x y) d
          then 1 else 0)"
proof -
  let ?old = "CELL_CANDS (ss_grid s) x y"
  let ?ns = "cs_set cs AND NOT (cs_set cs AND ?old)"
  let ?s1 = "if ?ns \<noteq> 0 then house_adjust_cand_count_up s x y ?ns else s"
  have s1: "houses_ok (ss_houses ?s1)" "groups_ok (ss_grid ?s1)" "in_house ?s1 x y h = in_house s x y h"
    using assms(1,2) by (simp_all add: houses_ok_adjust)
  have c1: "cand_count (ss_houses ?s1) h d
      = cand_count (ss_houses s) h d + (if bit ?ns d \<and> in_house s x y h then 1 else 0)"
  proof (cases "?ns = 0")
    case True
    then show ?thesis by simp
  next
    case False
    then show ?thesis by (simp add: cand_count_adjust_up [OF assms(1-6)])
  qed
  have b: "bit ?ns d \<longleftrightarrow> bit (cs_set cs) d \<and> \<not> bit ?old d"
    using assms(6) by (auto simp add: bit_and_iff bit_or_iff bit_not_iff)
  have "cand_count (ss_houses (fst (fst (remove_entry (s, raise) (key, PyCandidateSet cs))))) h d
      = cand_count (ss_houses ?s1) h d + (if bit (cs_set cs) d \<and> in_house s x y h then - 1 else 0)"
    unfolding remove_entry_eq [OF assms(7,8)]
    using cand_count_adjust_down [OF s1(1,2) assms(3-6), of "cs_set cs"] s1(3)
    by simp
  also have "\<dots> = cand_count (ss_houses s) h d
       - (if in_house s x y h \<and> bit (cs_set cs) d \<and> bit ?old d then 1 else 0)"
    unfolding c1 b
    by (cases "in_house s x y h"; cases "bit (cs_set cs) d"; cases "bit ?old d") simp_all
  finally show ?thesis .
qed

lemma contradiction_site_Cons:
  "contradiction_site s (kv # rest)
     = (case contradiction_site s rest of
          Some p \<Rightarrow> Some p
        | None \<Rightarrow> if empties s kv then Some (nat (fst (fst kv)), nat (snd (fst kv))) else None)"
  by (cases "filter (empties s) rest") (simp_all add: contradiction_site_def)

lemma remove_loop:
  assumes "houses_ok (ss_houses s)" "groups_ok (ss_grid s)"
    and "distinct (map fst change)" "list_all (valid_entry s) change"
  shows "snd (dict_loop remove_entry (s, raise) change) = None
    \<and> houses_ok (ss_houses (fst (fst (dict_loop remove_entry (s, raise) change))))
    \<and> groups_ok (ss_grid (fst (fst (dict_loop remove_entry (s, raise) change))))
    \<and> ss_solved (fst (fst (dict_loop remove_entry (s, raise) change))) = ss_solved s
    \<and> (\<forall>x y. CELL_FILLED (ss_grid (fst (fst (dict_loop remove_entry (s, raise) change)))) x y
               = CELL_FILLED (ss_grid s) x y)
    \<and> (\<forall>x y h. in_house (fst (fst (dict_loop remove_entry (s, raise) change))) x y h
               = in_house s x y h)
    \<and> (\<forall>h<27. hi_solved (ss_houses (fst (fst (dict_loop remove_entry (s, raise) change))) ! h)
               = hi_solved (ss_houses s ! h))
    \<and> (\<forall>x<9. \<forall>y<9. CELL_CANDS (ss_grid (fst (fst (dict_loop remove_entry (s, raise) change)))) x y
               = CELL_CANDS (ss_grid s) x y AND NOT (removed_mask change x y))
    \<and> (\<forall>h<27. \<forall>d<9.
          cand_count (ss_houses (fst (fst (dict_loop remove_entry (s, raise) change)))) h d
               = cand_count (ss_houses s) h d
                 - int (length (filter (removed_present s h d) change)))
    \<and> snd (fst (dict_loop remove_entry (s, raise) change))
         = (case contradiction_site s change of None \<Rightarrow> raise | Some p \<Rightarrow> Some p)"
  using assms
proof (induction change arbitrary: s raise)
  case Nil
  then show ?case by (simp add: removed_mask_def contradiction_site_def)
next
  case (Cons kv rest)
  obtain key v where kv: "kv = (key, v)" by (cases kv)
  from Cons.prems(4) kv have "valid_entry s (key, v)" by simp
  then obtain x y cs where xy: "key = (int x, int y)" "x < 9" "y < 9" "v = PyCandidateSet cs"
    "UNPACK_KEY key = Inr (x, y)" "\<not> CELL_FILLED (ss_grid s) x y"
    by (rule valid_entryE)
  let ?old = "CELL_CANDS (ss_grid s) x y"
  let ?ns = "cs_set cs AND NOT (cs_set cs AND ?old)"
  let ?s0 = "if ?ns \<noteq> 0 then house_adjust_cand_count_up s x y ?ns else s"
  define s1 where "s1 = fst (fst (remove_entry (s, raise) kv))"
  define raise1 where "raise1 = snd (fst (remove_entry (s, raise) kv))"
  have s1_eq: "s1 = set_CELL_CANDS (house_adjust_cand_count_down ?s0 x y (cs_set cs)) x y
                      (?old AND NOT (cs_set cs))"
    unfolding s1_def kv xy(4) remove_entry_eq [OF xy(5,6)] by simp
  have step: "remove_entry (s, raise) kv = ((s1, raise1), None)"
    unfolding s1_def raise1_def kv xy(4) remove_entry_eq [OF xy(5,6)] by simp
  have len: "length (ss_grid s) = 81" using Cons.prems(2) by (rule groups_okD)
  have h1: "houses_ok (ss_houses s1)"
    unfolding s1_eq using Cons.prems(1) by (simp add: houses_ok_adjust)
  have g1: "groups_ok (ss_grid s1)"
    unfolding s1_eq using Cons.prems(2) by (simp add: groups_ok_set_CELL_CANDS)
  have f1: "CELL_FILLED (ss_grid s1) x' y' = CELL_FILLED (ss_grid s) x' y'" for x' y'
    unfolding s1_eq by simp
  have i1: "in_house s1 x' y' h = in_house s x' y' h" for x' y' h
    unfolding s1_eq by simp
  have sv1: "ss_solved s1 = ss_solved s"
    unfolding s1_eq by simp
  have hs1: "hi_solved (ss_houses s1 ! h) = hi_solved (ss_houses s ! h)" if "h < 27" for h
    unfolding s1_eq using that houses_okD(1) [OF Cons.prems(1)]
    by (simp add: hi_solved_adjust)
  have c1: "CELL_CANDS (ss_grid s1) x' y'
      = (if x' = x \<and> y' = y then ?old AND NOT (cs_set cs) else CELL_CANDS (ss_grid s) x' y')"
    if "y' < 9" for x' y'
  proof -
    have "length (ss_grid (house_adjust_cand_count_down ?s0 x y (cs_set cs))) = 81"
      using len by simp
    from CELL_CANDS_set_CELL_CANDS [OF this xy(2,3) that]
    show ?thesis unfolding s1_eq by (simp add: CELL_CANDS_def)
  qed
  have r1: "raise1 = (if empties s kv then Some (x, y) else raise)"
  proof -
    have "raise1 = (if CELL_CANDS (ss_grid s1) x y = 0 then Some (x, y) else raise)"
      unfolding raise1_def s1_eq kv xy(4) remove_entry_eq [OF xy(5,6)] by simp
    then show ?thesis
      by (simp add: c1 [OF xy(3)] empties_def kv xy(4,5))
  qed
  have n1: "cand_count (ss_houses s1) h d
      = cand_count (ss_houses s) h d - (if removed_present s h d kv then 1 else 0)"
    if "h < 27" "d < 9" for h d
    unfolding s1_def kv xy(4)
    using remove_entry_count [OF Cons.prems(1,2) xy(2,3) that xy(5,6), of raise cs]
    by (simp add: removed_present_def xy(5))
  have d_rest: "distinct (map fst rest)" and key_rest: "key \<notin> fst ` set rest"
    using Cons.prems(3) kv by simp_all
  have "valid_entry s1 = valid_entry s"
    by (rule ext) (rule valid_entry_cong, rule f1)
  then have v_rest: "list_all (valid_entry s1) rest"
    using Cons.prems(4) by simp
  note IH = Cons.IH [OF h1 g1 d_rest v_rest, of raise1]
  have loop: "dict_loop remove_entry (s, raise) (kv # rest) = dict_loop remove_entry (s1, raise1) rest"
    by (simp add: step)
  let ?s' = "fst (fst (dict_loop remove_entry (s1, raise1) rest))"
  have mask: "CELL_CANDS (ss_grid ?s') x' y'
      = CELL_CANDS (ss_grid s) x' y' AND NOT (removed_mask (kv # rest) x' y')"
    if "x' < 9" "y' < 9" for x' y'
  proof (cases "x' = x \<and> y' = y")
    case True
    have "map_of rest key = None"
      using key_rest by (simp add: map_of_eq_None_iff)
    then have "removed_mask rest x y = 0" "removed_mask (kv # rest) x y = cs_set cs"
      by (simp_all add: removed_mask_def kv xy(1,4))
    with IH that True c1 [OF that(2), of x'] show ?thesis by simp
  next
    case False
    then have "removed_mask (kv # rest) x' y' = removed_mask rest x' y'"
      by (auto simp add: removed_mask_def kv xy(1))
    moreover have "CELL_CANDS (ss_grid s1) x' y' = CELL_CANDS (ss_grid s) x' y'"
      unfolding c1 [OF that(2)] using False by (rule if_not_P)
    ultimately show ?thesis using IH that by simp
  qed
  have cell_rest: "CELL_CANDS (ss_grid s1) x' y' = CELL_CANDS (ss_grid s) x' y'
        \<and> UNPACK_KEY k' = Inr (x', y') \<and> v' = PyCandidateSet cs'"
    if "(k', v') \<in> set rest" "valid_entry s (k', v')"
       "k' = (int x', int y')" "x' < 9" "y' < 9" "v' = PyCandidateSet cs'"
       "UNPACK_KEY k' = Inr (x', y')" for k' v' x' y' cs'
  proof -
    from that(1) key_rest have "k' \<noteq> key" by force
    with that(3) xy(1) have "\<not> (x' = x \<and> y' = y)" by auto
    then have "CELL_CANDS (ss_grid s1) x' y' = CELL_CANDS (ss_grid s) x' y'"
      unfolding c1 [OF that(5)] by (rule if_not_P)
    with that show ?thesis by simp
  qed
  have same: "removed_present s1 h d e = removed_present s h d e \<and> empties s1 e = empties s e"
    if "e \<in> set rest" for h d e
  proof -
    obtain k' v' where e: "e = (k', v')" by (cases e)
    from that Cons.prems(4) e have ve: "valid_entry s (k', v')"
      by (simp add: list_all_iff)
    then obtain x' y' cs' where e': "k' = (int x', int y')" "x' < 9" "y' < 9" "v' = PyCandidateSet cs'"
      "UNPACK_KEY k' = Inr (x', y')"
      by (rule valid_entryE)
    from cell_rest [OF that [unfolded e] ve e']
    show ?thesis
      by (simp add: removed_present_def empties_def e i1)
  qed
  have count: "cand_count (ss_houses ?s') h d
      = cand_count (ss_houses s) h d - int (length (filter (removed_present s h d) (kv # rest)))"
    if "h < 27" "d < 9" for h d
  proof -
    have "filter (removed_present s1 h d) rest = filter (removed_present s h d) rest"
      by (rule filter_cong) (simp_all add: same)
    with IH n1 [OF that] that show ?thesis by simp
  qed
  have site: "snd (fst (dict_loop remove_entry (s1, raise1) rest))
      = (case contradiction_site s (kv # rest) of None \<Rightarrow> raise | Some p \<Rightarrow> Some p)"
  proof -
    have "filter (empties s1) rest = filter (empties s) rest"
      by (rule filter_cong) (simp_all add: same)
    then have "contradiction_site s1 rest = contradiction_site s rest"
      by (simp add: contradiction_site_def)
    with IH have "snd (fst (dict_loop remove_entry (s1, raise1) rest))
        = (case contradiction_site s rest of None \<Rightarrow> raise1 | Some p \<Rightarrow> Some p)"
      by simp
    then show ?thesis
      by (simp add: contradiction_site_Cons r1 kv xy(1) split: option.splits)
  qed
  from IH have rest_facts:
    "snd (dict_loop remove_entry (s1, raise1) rest) = None"
    "houses_ok (ss_houses ?s')" "groups_ok (ss_grid ?s')" "ss_solved ?s' = ss_solved s1"
    "\<And>x y. CELL_FILLED (ss_grid ?s') x y = CELL_FILLED (ss_grid s1) x y"
    "\<And>x y h. in_house ?s' x y h = in_house s1 x y h"
    "\<And>h. h < 27 \<Longrightarrow> hi_solved (ss_houses ?s' ! h) = hi_solved (ss_houses s1 ! h)"
    by simp_all
  show ?case
    unfolding loop
    using rest_facts mask count site
    by (simp add: f1 i1 sv1 hs1)
qed

text \<open>A state with one clue and no pencil marks, and a change of two items for it.\<close>

lemma State_one_clue_inv:
  "case State [((1, 1), 3)] False None of
     Inl e \<Rightarrow> False
   | Inr s \<Rightarrow> state_inv s
       \<and> list_all (valid_entry s)
           [((0, 0), PyCandidateSet (build_set 511)), ((0, 1), PyCandidateSet (build_set 8))]
       \<and> contradiction_site s
           [((0, 0), PyCandidateSet (build_set 511)), ((0, 1), PyCandidateSet (build_set 8))]
           = Some (0, 1)
       \<and> CELL_CANDS (ss_grid s) 0 0 = 0"
  by code_simp

subsection \<open>Rectangles\<close>

text \<open>
  The set that \<^verbatim>\<open>find_rectangles\<close> requires (empty when none is given), and the rectangle
  predicate: the corner tuple is \<open>(ul, ur, lr, ll)\<close> with \<open>ul = (r1, c1)\<close>, \<open>ur = (r1, c2)\<close>,
  \<open>lr = (r2, c2)\<close>, \<open>ll = (r2, c1)\<close>, \<open>r1 < r2\<close> and \<open>c1 < c2\<close>; the four cells are unsolved;
  the set is the intersection of their four masks, is not empty and includes the
  required set.
\<close>

definition required_of :: "pyobj option \<Rightarrow> 16 word" where
  "required_of cands = (case cands of Some (PyCandidateSet c) \<Rightarrow> cs_set c | _ \<Rightarrow> 0)"

definition rectangle_ok :: "SudokuStateObject \<Rightarrow> 16 word \<Rightarrow> rectangle \<Rightarrow> bool" where
  "rectangle_ok s required r \<longleftrightarrow>
     (case r of (S, (ul, ur, lr, ll)) \<Rightarrow>
        case ul of (r1, c1) \<Rightarrow>
        case lr of (r2, c2) \<Rightarrow>
          ur = (r1, c2) \<and> ll = (r2, c1) \<and> r1 < r2 \<and> r2 < 9 \<and> c1 < c2 \<and> c2 < 9
          \<and> \<not> CELL_FILLED (ss_grid s) r1 c1 \<and> \<not> CELL_FILLED (ss_grid s) r1 c2
          \<and> \<not> CELL_FILLED (ss_grid s) r2 c2 \<and> \<not> CELL_FILLED (ss_grid s) r2 c1
          \<and> cs_set S = CELL_CANDS (ss_grid s) r1 c1 AND CELL_CANDS (ss_grid s) r1 c2
                         AND CELL_CANDS (ss_grid s) r2 c2 AND CELL_CANDS (ss_grid s) r2 c1
          \<and> cs_set S \<noteq> 0 \<and> SUBSET required (cs_set S))"

text \<open>The order of the results: by \<open>c2\<close>, then by \<open>r2\<close>.\<close>

definition rect_c2 :: "rectangle \<Rightarrow> nat" where
  "rect_c2 r = snd (fst (snd (snd r)))"

definition rect_r2 :: "rectangle \<Rightarrow> nat" where
  "rect_r2 r = fst (fst (snd (snd (snd r))))"

definition rect_before :: "rectangle \<Rightarrow> rectangle \<Rightarrow> bool" where
  "rect_before a b \<longleftrightarrow> rect_c2 a < rect_c2 b \<or> (rect_c2 a = rect_c2 b \<and> rect_r2 a < rect_r2 b)"

lemma sorted_wrt_concat_map_upt:
  assumes "\<And>j. sorted_wrt R (f j)"
    and "\<And>j j' a b. j < j' \<Longrightarrow> a \<in> set (f j) \<Longrightarrow> b \<in> set (f j') \<Longrightarrow> R a b"
  shows "sorted_wrt R (concat (map f [m..<n]))"
proof (induction n)
  case 0
  then show ?case by simp
next
  case (Suc n)
  show ?case
  proof (cases "m \<le> n")
    case True
    then show ?thesis
      using Suc assms by (auto simp add: sorted_wrt_append)
  next
    case False
    then show ?thesis by simp
  qed
qed

lemma masks_okD:
  "masks_ok grid \<Longrightarrow> i < length grid \<Longrightarrow> ci_candidates (grid ! i) AND TERMS = ci_candidates (grid ! i)"
  by (simp add: masks_ok_def list_all_length)

lemma CELL_CANDS_TERMS:
  assumes "state_inv s" "x < 9" "y < 9"
  shows "CELL_CANDS (ss_grid s) x y AND TERMS = CELL_CANDS (ss_grid s) x y"
  using masks_okD [OF state_invD(2) [OF assms(1)], of "INDEX x y"]
    groups_okD(1) [OF state_invD(1) [OF assms(1)]] INDEX_less [OF assms(2,3)]
  by (simp add: CELL_CANDS_def)

lemma rect_lower_elem:
  assumes "r \<in> set (rect_lower grid x y required tmp j i)"
  shows "r = (build_set ((tmp AND CELL_CANDS grid i y) AND CELL_CANDS grid i j),
              ((x, y), (x, j), (i, j), (i, y)))
    \<and> \<not> CELL_FILLED grid i y \<and> \<not> CELL_FILLED grid i j
    \<and> (tmp AND CELL_CANDS grid i y) AND CELL_CANDS grid i j \<noteq> 0
    \<and> SUBSET required ((tmp AND CELL_CANDS grid i y) AND CELL_CANDS grid i j)"
  using assms by (simp add: rect_lower_def Let_def split: if_splits)

lemma rect_upper_elem:
  assumes "r \<in> set (rect_upper grid x y required ul_set j)"
  shows "\<exists>i. x < i \<and> i < 9 \<and> \<not> CELL_FILLED grid x j
    \<and> r \<in> set (rect_lower grid x y required (ul_set AND CELL_CANDS grid x j) j i)"
proof -
  from assms have f: "\<not> CELL_FILLED grid x j"
    and "r \<in> set (concat (map (rect_lower grid x y required (ul_set AND CELL_CANDS grid x j) j)
                  [x + 1..<9]))"
    by (simp_all add: rect_upper_def Let_def split: if_splits)
  then obtain i where "i \<in> set [x + 1..<9]"
    "r \<in> set (rect_lower grid x y required (ul_set AND CELL_CANDS grid x j) j i)"
    by auto
  with f show ?thesis by (intro exI [of _ i]) simp
qed

lemma one_key_elem:
  assumes "find_rectangles_one_key s x y cs = Inr rs" "r \<in> set rs"
  shows "\<exists>i j. x < i \<and> i < 9 \<and> y < j \<and> j < 9
    \<and> \<not> CELL_FILLED (ss_grid s) x y \<and> \<not> CELL_FILLED (ss_grid s) x j
    \<and> r \<in> set (rect_lower (ss_grid s) x y (case cs of None \<Rightarrow> 0 | Some c \<Rightarrow> cs_set c)
                  (CELL_CANDS (ss_grid s) x y AND CELL_CANDS (ss_grid s) x j) j i)"
proof -
  let ?req = "case cs of None \<Rightarrow> 0 | Some c \<Rightarrow> cs_set c"
  from assms have f: "\<not> CELL_FILLED (ss_grid s) x y"
    by (auto simp add: find_rectangles_one_key_def Let_def split: if_splits)
  from assms f have "r \<in> set (concat (map (rect_upper (ss_grid s) x y ?req (CELL_CANDS (ss_grid s) x y))
                  [y + 1..<9]))"
    by (auto simp add: find_rectangles_one_key_def Let_def split: if_splits)
  then obtain j where j: "j \<in> set [y + 1..<9]"
    "r \<in> set (rect_upper (ss_grid s) x y ?req (CELL_CANDS (ss_grid s) x y) j)"
    by auto
  from rect_upper_elem [OF j(2)] obtain i where "x < i" "i < 9" "\<not> CELL_FILLED (ss_grid s) x j"
    "r \<in> set (rect_lower (ss_grid s) x y ?req
                (CELL_CANDS (ss_grid s) x y AND CELL_CANDS (ss_grid s) x j) j i)"
    by blast
  with f j(1) show ?thesis by (intro exI [of _ i] exI [of _ j]) simp
qed

lemma one_key_rectangle_ok:
  assumes "state_inv s" "x < 9" "y < 9"
    and "find_rectangles_one_key s x y cs = Inr rs" "r \<in> set rs"
  shows "rectangle_ok s (case cs of None \<Rightarrow> 0 | Some c \<Rightarrow> cs_set c) r \<and> fst (snd r) = (x, y)"
proof -
  let ?req = "case cs of None \<Rightarrow> 0 | Some c \<Rightarrow> cs_set c"
  let ?g = "ss_grid s"
  from one_key_elem [OF assms(4,5)] obtain i j where ij: "x < i" "i < 9" "y < j" "j < 9"
    "\<not> CELL_FILLED ?g x y" "\<not> CELL_FILLED ?g x j"
    "r \<in> set (rect_lower ?g x y ?req (CELL_CANDS ?g x y AND CELL_CANDS ?g x j) j i)"
    by blast
  let ?m = "((CELL_CANDS ?g x y AND CELL_CANDS ?g x j) AND CELL_CANDS ?g i y) AND CELL_CANDS ?g i j"
  from rect_lower_elem [OF ij(7)] have r: "r = (build_set ?m, ((x, y), (x, j), (i, j), (i, y)))"
    and f: "\<not> CELL_FILLED ?g i y" "\<not> CELL_FILLED ?g i j"
    and m: "?m \<noteq> 0" "SUBSET ?req ?m"
    by simp_all
  have a: "CELL_CANDS ?g x y AND TERMS = CELL_CANDS ?g x y"
    by (rule CELL_CANDS_TERMS [OF assms(1-3)])
  have "?m AND TERMS
      = (((CELL_CANDS ?g x y AND TERMS) AND CELL_CANDS ?g x j) AND CELL_CANDS ?g i y)
          AND CELL_CANDS ?g i j"
    by (simp add: ac_simps)
  then have t: "?m AND TERMS = ?m"
    unfolding a .
  let ?m' = "CELL_CANDS ?g x y AND CELL_CANDS ?g x j AND CELL_CANDS ?g i j AND CELL_CANDS ?g i y"
  have e: "?m = ?m'"
    by (simp add: ac_simps)
  have "cs_set (build_set ?m) = ?m AND TERMS"
    by (simp add: build_set_def)
  also have "\<dots> = ?m" by (rule t)
  also have "\<dots> = ?m'" by (rule e)
  finally have cs: "cs_set (build_set ?m) = ?m'" .
  have m': "?m' \<noteq> 0" "SUBSET ?req ?m'"
    using m unfolding e by simp_all
  show ?thesis
    unfolding r rectangle_ok_def
    using ij(1-6) f m' by (simp add: cs)
qed

lemma rect_lower_order:
  "r \<in> set (rect_lower grid x y required tmp j i) \<Longrightarrow> rect_c2 r = j \<and> rect_r2 r = i"
  by (simp add: rect_lower_def Let_def rect_c2_def rect_r2_def split: if_splits)

lemma rect_upper_order:
  "r \<in> set (rect_upper grid x y required ul_set j) \<Longrightarrow> rect_c2 r = j"
  by (auto simp add: rect_upper_def Let_def split: if_splits dest: rect_lower_order)

lemma sorted_rect_lower: "sorted_wrt R (rect_lower grid x y required tmp j i)"
  by (simp add: rect_lower_def Let_def)

lemma sorted_rect_upper: "sorted_wrt rect_before (rect_upper grid x y required ul_set j)"
proof -
  have "sorted_wrt rect_before
          (concat (map (rect_lower grid x y required tmp j) [x + 1..<9]))" for tmp
  proof (rule sorted_wrt_concat_map_upt)
    show "sorted_wrt rect_before (rect_lower grid x y required tmp j i)" for i
      by (rule sorted_rect_lower)
    show "rect_before a b"
      if "i < i'" "a \<in> set (rect_lower grid x y required tmp j i)"
         "b \<in> set (rect_lower grid x y required tmp j i')" for i i' a b
      using that rect_lower_order [OF that(2)] rect_lower_order [OF that(3)]
      by (simp add: rect_before_def)
  qed
  then show ?thesis by (simp add: rect_upper_def Let_def)
qed

lemma sorted_one_key:
  assumes "find_rectangles_one_key s x y cs = Inr rs"
  shows "sorted_wrt rect_before rs"
proof -
  have "sorted_wrt rect_before
          (concat (map (rect_upper (ss_grid s) x y required ul_set) [y + 1..<9]))" for required ul_set
  proof (rule sorted_wrt_concat_map_upt)
    show "sorted_wrt rect_before (rect_upper (ss_grid s) x y required ul_set j)" for j
      by (rule sorted_rect_upper)
    show "rect_before a b"
      if "j < j'" "a \<in> set (rect_upper (ss_grid s) x y required ul_set j)"
         "b \<in> set (rect_upper (ss_grid s) x y required ul_set j')" for j j' a b
      using that rect_upper_order [OF that(2)] rect_upper_order [OF that(3)]
      by (simp add: rect_before_def)
  qed
  with assms show ?thesis
    by (auto simp add: find_rectangles_one_key_def Let_def split: if_splits)
qed

lemma one_key_Inr:
  "x \<noteq> 8 \<Longrightarrow> y \<noteq> 8 \<Longrightarrow> \<exists>rs. find_rectangles_one_key s x y cs = Inr rs"
  by (simp add: find_rectangles_one_key_def Let_def)

lemma scan_rectangle_ok:
  assumes "state_inv s" "\<forall>k\<in>set keys. fst k < 8 \<and> snd k < 8"
    and "\<forall>r\<in>set acc. rectangle_ok s (case cs of None \<Rightarrow> 0 | Some c \<Rightarrow> cs_set c) r"
  shows "\<exists>rs. find_rectangles_scan s cs keys acc = Inr rs
    \<and> (\<forall>r\<in>set rs. rectangle_ok s (case cs of None \<Rightarrow> 0 | Some c \<Rightarrow> cs_set c) r)"
  using assms(2,3)
proof (induction keys arbitrary: acc)
  case Nil
  then show ?case by simp
next
  case (Cons k keys)
  obtain i j where k: "k = (i, j)" by (cases k)
  with Cons.prems(1) have ij: "i < 8" "j < 8" by simp_all
  from Cons.prems(1) have rest: "\<forall>k\<in>set keys. fst k < 8 \<and> snd k < 8" by simp
  show ?case
  proof (cases "CELL_FILLED (ss_grid s) i j")
    case True
    with Cons.IH [OF rest Cons.prems(2)] show ?thesis by (simp add: k)
  next
    case False
    from ij obtain res where res: "find_rectangles_one_key s i j cs = Inr res"
      using one_key_Inr [of i j s cs] by auto
    have "\<forall>r\<in>set (acc @ res). rectangle_ok s (case cs of None \<Rightarrow> 0 | Some c \<Rightarrow> cs_set c) r"
      using Cons.prems(2) one_key_rectangle_ok [OF assms(1) _ _ res] ij by auto
    from Cons.IH [OF rest this] False res show ?thesis by (simp add: k)
  qed
qed

lemma upper_left_keys_range: "\<forall>k\<in>set upper_left_keys. fst k < 8 \<and> snd k < 8"
  by (auto simp add: upper_left_keys_def)

subsection \<open>The iterator of the cells with a given number of candidates\<close>

text \<open>
  The scan of \<^verbatim>\<open>exactly_n_keyiterfunc\<close> is a search in the row-major list of the keys, and the
  table \<^verbatim>\<open>isizes\<close> holds the number of the bits set among the nine lowest ones.
\<close>

lemma all_keys_eq: "all_keys = map (\<lambda>k. (k div 9, k mod 9)) [0..<81]"
  by code_simp

lemma length_all_keys: "length all_keys = 81"
  by (simp add: all_keys_eq)

lemma nth_all_keys: "k < 81 \<Longrightarrow> all_keys ! k = (k div 9, k mod 9)"
  by (simp add: all_keys_eq)

lemma set_all_keys: "set all_keys = {(x, y). x < 9 \<and> y < 9}"
  by (auto simp add: all_keys_def)

lemma find_drop_None:
  "find P (drop k xs) = None \<Longrightarrow> filter P (drop k xs) = []"
  by (simp add: find_None_iff filter_empty_conv)

lemma find_drop_Some:
  assumes "find P (drop k xs) = Some v"
  shows "\<exists>m\<ge>k. m < length xs \<and> xs ! m = v
    \<and> filter P (drop k xs) = v # filter P (drop (Suc m) xs)"
proof -
  let ?ys = "drop k xs"
  from assms obtain i where i: "i < length ?ys" "P (?ys ! i)" "v = ?ys ! i" "\<forall>j<i. \<not> P (?ys ! j)"
    by (auto simp add: find_Some_iff)
  have "filter P (take i ?ys) = []"
    using i(1,4) by (auto simp add: filter_empty_conv in_set_conv_nth)
  moreover have "drop i ?ys = v # drop (Suc i) ?ys"
    using Cons_nth_drop_Suc [OF i(1)] i(3) by simp
  ultimately have "filter P ?ys = v # filter P (drop (Suc i) ?ys)"
    using i(2,3) append_take_drop_id [of i ?ys, symmetric]
    by (metis append_Nil filter.simps(2) filter_append)
  moreover have "drop (Suc i) ?ys = drop (Suc (k + i)) xs"
    by (simp add: add.commute)
  moreover have "k + i < length xs" "xs ! (k + i) = v"
    using i(1,3) by simp_all
  ultimately show ?thesis
    by (intro exI [of _ "k + i"]) simp
qed

declare exactly_n_scan.simps [simp del]

definition exactly_n_test :: "cell_info list \<Rightarrow> int \<Rightarrow> nat \<times> nat \<Rightarrow> bool" where
  "exactly_n_test grid n k \<longleftrightarrow>
     (case k of (x, y) \<Rightarrow> \<not> CELL_FILLED grid x y \<and> isizes (unat (CELL_CANDS grid x y)) = n)"

lemma exactly_n_test_pair:
  "exactly_n_test grid n (x, y) \<longleftrightarrow>
     \<not> CELL_FILLED grid x y \<and> isizes (unat (CELL_CANDS grid x y)) = n"
  by (simp add: exactly_n_test_def)

lemma exactly_n_scan_find:
  "j \<le> 9 \<Longrightarrow> exactly_n_scan grid n i j = find (exactly_n_test grid n) (drop (i * 9 + j) all_keys)"
proof (induction grid n i j rule: exactly_n_scan.induct)
  case (1 grid n i j)
  note unf = exactly_n_scan.simps [of grid n i j]
  show ?case
  proof (cases "i < 9")
    case False
    then have "drop (i * 9 + j) all_keys = []"
      by (simp add: length_all_keys)
    with False show ?thesis by (simp add: unf)
  next
    case i: True
    show ?thesis
    proof (cases "j < 9")
      case False
      with "1.prems" have j: "j = 9" by simp
      have "exactly_n_scan grid n i j = exactly_n_scan grid n (i + 1) 0"
        using i False by (simp add: unf)
      also have "\<dots> = find (exactly_n_test grid n) (drop ((i + 1) * 9 + 0) all_keys)"
        using "1.IH"(2) [OF i False] by simp
      also have "(i + 1) * 9 + 0 = i * 9 + j"
        by (simp add: j)
      finally show ?thesis .
    next
      case j: True
      from i j have k: "i * 9 + j < 81" by simp
      then have d: "drop (i * 9 + j) all_keys = (i, j) # drop (i * 9 + (j + 1)) all_keys"
        using Cons_nth_drop_Suc [of "i * 9 + j" all_keys] j
        by (simp add: length_all_keys nth_all_keys)
      show ?thesis
      proof (cases "exactly_n_test grid n (i, j)")
        case True
        then have "exactly_n_scan grid n i j = Some (i, j)"
          using i j by (simp add: unf exactly_n_test_pair)
        with True show ?thesis by (simp add: d)
      next
        case False
        then have "exactly_n_scan grid n i j = exactly_n_scan grid n i (j + 1)"
          using i j by (auto simp add: unf exactly_n_test_pair)
        also have "\<dots> = find (exactly_n_test grid n) (drop (i * 9 + (j + 1)) all_keys)"
          using "1.IH"(1) [OF i j] False j by (auto simp add: exactly_n_test_pair)
        finally show ?thesis using False by (simp add: d)
      qed
    qed
  qed
qed

lemma exactly_n_keys_filter:
  "ki_next_y ki \<le> 9 \<Longrightarrow>
   exactly_n_keys grid ki
     = filter (exactly_n_test grid (ki_pos ki)) (drop (ki_next_x ki * 9 + ki_next_y ki) all_keys)"
proof (induction grid ki rule: exactly_n_keys.induct)
  case (1 grid ki)
  let ?P = "exactly_n_test grid (ki_pos ki)"
  let ?k = "ki_next_x ki * 9 + ki_next_y ki"
  have scan: "exactly_n_scan grid (ki_pos ki) (ki_next_x ki) (ki_next_y ki) = find ?P (drop ?k all_keys)"
    using "1.prems" by (rule exactly_n_scan_find)
  show ?case
  proof (cases "find ?P (drop ?k all_keys)")
    case None
    then have "exactly_n_keyiterfunc grid ki = None"
      by (simp add: exactly_n_keyiterfunc_def scan)
    then have "exactly_n_keys grid ki = []"
      by (subst exactly_n_keys.simps) simp
    with find_drop_None [OF None] show ?thesis by simp
  next
    case (Some v)
    obtain x y where v: "v = (x, y)" by (cases v)
    let ?ki' = "ki\<lparr>ki_next_x := x, ki_next_y := y + 1\<rparr>"
    have it: "exactly_n_keyiterfunc grid ki = Some (?ki', (x, y))"
      by (simp add: exactly_n_keyiterfunc_def scan Some v)
    from find_drop_Some [OF Some] obtain m where m: "?k \<le> m" "m < length all_keys"
      "all_keys ! m = v" "filter ?P (drop ?k all_keys) = v # filter ?P (drop (Suc m) all_keys)"
      by blast
    from m(2,3) v have xy: "x = m div 9" "y = m mod 9"
      by (simp_all add: length_all_keys nth_all_keys)
    then have idx: "x * 9 + (y + 1) = Suc m" "y + 1 \<le> 9"
      by simp_all
    have "exactly_n_keys grid ?ki' = filter ?P (drop (Suc m) all_keys)"
      using "1.IH" [OF it refl] idx by simp
    moreover have "exactly_n_keys grid ki = (x, y) # exactly_n_keys grid ?ki'"
      by (subst exactly_n_keys.simps) (simp add: it)
    ultimately show ?thesis by (simp add: m(4) v)
  qed
qed

definition popcount9 :: "nat \<Rightarrow> int" where
  "popcount9 i = int (length (filter (bit i) [0, 1, 2, 3, 4, 5, 6, 7, 8]))"

lemma upt_0_9: "[0..<9] = [0, 1, 2, 3, 4, 5, 6, 7, 8]"
  by code_simp

lemma isizes_enum:
  "list_all (\<lambda>i. isizes i = popcount9 i) [2..<512]"
  by (simp add: isizes_def count_ones_def popcount9_def upt_rec_numeral bit_Suc_0_iff)

lemma isizes_0: "isizes 0 = popcount9 0"
  by (simp add: isizes_def count_ones_def popcount9_def)

lemma isizes_1: "isizes (Suc 0) = popcount9 (Suc 0)"
  by (simp add: isizes_def count_ones_def popcount9_def upt_rec_numeral bit_Suc_0_iff)

lemma isizes_popcount9: "i < 512 \<Longrightarrow> isizes i = popcount9 i"
proof -
  assume i: "i < 512"
  show ?thesis
  proof (cases "2 \<le> i")
    case True
    with i have "i \<in> {2..<512}" by simp
    then have "i \<in> set [2..<512]" by (simp only: set_upt)
    with isizes_enum show ?thesis unfolding list_all_iff by blast
  next
    case False
    then have "i = 0 \<or> i = Suc 0" by arith
    then show ?thesis using isizes_0 isizes_1 by auto
  qed
qed

lemma isizes_card:
  fixes m :: "16 word"
  assumes "m AND TERMS = m"
  shows "isizes (unat m) = int (card {d. d < 9 \<and> bit m d})"
proof -
  have "unat m = unat (m AND TERMS)" using assms by simp
  also have "\<dots> \<le> unat (TERMS :: 16 word)"
    using word_and_le1 [of m TERMS] unfolding word_le_nat_alt .
  finally have "unat m < 512" by simp
  then have "isizes (unat m) = popcount9 (unat m)" by (rule isizes_popcount9)
  also have "\<dots> = int (length (filter (bit m) [0..<9]))"
    by (simp add: popcount9_def upt_0_9 bit_unsigned_iff)
  also have "length (filter (bit m) [0..<9]) = card ({d. bit m d} \<inter> set [0..<9])"
    by (rule distinct_length_filter) simp
  also have "{d. bit m d} \<inter> set [0..<9] = {d. d < 9 \<and> bit m d}"
    by auto
  finally show ?thesis .
qed

lemma exactly_n_test_card:
  assumes "state_inv s" "k \<in> set all_keys"
  shows "exactly_n_test (ss_grid s) n k \<longleftrightarrow>
    (case k of (x, y) \<Rightarrow> \<not> CELL_FILLED (ss_grid s) x y
       \<and> int (card {d. d < 9 \<and> bit (CELL_CANDS (ss_grid s) x y) d}) = n)"
proof -
  obtain x y where k: "k = (x, y)" by (cases k)
  with assms(2) have "x < 9" "y < 9" by (simp_all add: set_all_keys)
  from isizes_card [OF CELL_CANDS_TERMS [OF assms(1) this]] show ?thesis
    by (simp add: k exactly_n_test_pair)
qed

subsection \<open>The iterator in random order\<close>

text \<open>
  The walk of \<^verbatim>\<open>order_random\<close> is \<open>k \<leftarrow> (5 k + 1) mod 128\<close>. From \<open>0\<close> it visits all of
  \<open>0, \<dots>, 127\<close> in 128 steps and is back at \<open>0\<close>, so from every start below 128 it reaches
  every index below 128 within 128 steps.
\<close>

definition probe_step :: "nat \<Rightarrow> nat" where
  "probe_step key = (push_bit 2 key + key + 1) AND 127"

lemma probe_step_mod: "probe_step key = (5 * key + 1) mod 128"
proof -
  have "(x :: nat) AND 127 = x mod 128" for x
    using take_bit_eq_mask [of 7 x] by (simp add: take_bit_eq_mod mask_eq_exp_minus_1)
  then show ?thesis
    by (simp add: probe_step_def push_bit_eq_mult)
qed

lemma probe_step_less: "probe_step key < 128"
  by (simp add: probe_step_mod)


























subsection \<open>States for the examples\<close>

text \<open>Four cells that share the candidate 3, at the corners of a rectangle.\<close>

definition four_corners :: "((int \<times> int) \<times> pyobj) list" where
  "four_corners =
     [((0, 0), PyCandidateSet (build_set 8)), ((0, 5), PyCandidateSet (build_set 9)),
      ((4, 0), PyCandidateSet (build_set 24)), ((4, 5), PyCandidateSet (build_set 8))]"

lemma State_four_corners:
  "case State [((1, 1), 3)] False None of
     Inl e \<Rightarrow> False
   | Inr s \<Rightarrow>
       state_inv (fst (data_State_add_candidates s four_corners))
       \<and> data_State_find_rectangles_impl (fst (data_State_add_candidates s four_corners))
            (Some (0, 0)) (Some (PyCandidateSet (build_set 8)))
           = Inr [(build_set 8, ((0, 0), (0, 5), (4, 5), (4, 0)))]"
  by code_simp

text \<open>
  A removal on that state: it empties \<open>(0, 0)\<close>, takes the candidate 3 from \<open>(0, 5)\<close>, which
  keeps the candidate 0, and empties \<open>(4, 5)\<close> with a set that the cell holds only in part.
\<close>

definition corner_removal :: "((int \<times> int) \<times> pyobj) list" where
  "corner_removal =
     [((0, 0), PyCandidateSet (build_set 8)), ((0, 5), PyCandidateSet (build_set 8)),
      ((4, 5), PyCandidateSet (build_set 9))]"

lemma State_four_corners_removal:
  "case State [((1, 1), 3)] False None of
     Inl e \<Rightarrow> False
   | Inr s \<Rightarrow>
       list_all (valid_entry (fst (data_State_add_candidates s four_corners))) corner_removal
       \<and> contradiction_site (fst (data_State_add_candidates s four_corners)) corner_removal
           = Some (4, 5)
       \<and> CELL_CANDS (ss_grid (fst (data_State_add_candidates s four_corners))) 0 0 = 8
       \<and> CELL_CANDS (ss_grid (fst (data_State_add_candidates s four_corners))) 0 5 = 9
       \<and> CELL_CANDS (ss_grid (fst (data_State_add_candidates s four_corners))) 4 5 = 8
       \<and> CELL_CANDS (ss_grid (fst (data_State_add_candidates s four_corners))) 4 0 = 24
       \<and> cand_count (ss_houses (fst (data_State_add_candidates s four_corners))) 18 3 = 2
       \<and> cand_count (ss_houses (fst (data_State_add_candidates s four_corners))) 14 0 = 1
       \<and> length (filter (removed_present (fst (data_State_add_candidates s four_corners)) 18 3)
            corner_removal) = 2
       \<and> length (filter (removed_present (fst (data_State_add_candidates s four_corners)) 14 0)
            corner_removal) = 0"
  by code_simp

section \<open>Properties\<close>

subsection \<open>Restoring a CandidateSet\<close>




subsection \<open>Clue digits of the constructor\<close>

text \<open>
  C3: the constructor is to fail for every clue digit outside \<open>0..8\<close>. For the clues
  \<open>{(0, 0): 9}\<close> it succeeds: the guard is \<^verbatim>\<open>cl > NUMROWS\<close>, so the digit 9 passes, the cell
  \<open>(0, 0)\<close> is solved with the value 9 and counted in \<open>ss_solved\<close>.
\<close>

theorem State_clue_nine:
  "case State [((0, 0), 9)] False None of
     Inl e \<Rightarrow> False
   | Inr s \<Rightarrow> CELL_FILLED (ss_grid s) 0 0 \<and> CELL_VALUE (ss_grid s) 0 0 = 9 \<and> ss_solved s = 1
              \<and> ss_skeys s = {(0, 0)}"
  by code_simp

text \<open>
  The nine counters of the digits stay at 0, and the increment for the digit 9 lands in
  the word behind them.
\<close>

lemma State_clue_nine_past:
  "case State [((0, 0), 9)] False None of
     Inl e \<Rightarrow> False
   | Inr s \<Rightarrow> ss_digits s = replicate 9 0 \<and> ss_digits_past s 0 = 1"
  by code_simp

subsection \<open>A solved corner\<close>

lemma State_one_clue:
  "case State [((1, 1), 3)] False None of
     Inl e \<Rightarrow> False
   | Inr s \<Rightarrow> CELL_FILLED (ss_grid s) 1 1"
  by code_simp

text \<open>
  C10: with a corner \<open>(x, y)\<close> outside the last row and the last column whose cell is
  solved, \<^verbatim>\<open>find_rectangles\<close> returns the empty tuple and raises nothing (\<open>cands\<close> being
  absent or a CandidateSet).
\<close>

theorem find_rectangles_solved_corner:
  assumes "x < 8" and "y < 8" and "CELL_FILLED (ss_grid s) x y" and "cands \<noteq> Some PyOther"
  shows "data_State_find_rectangles_impl s (Some (int x, int y)) cands = Inr []"
proof -
  have "UNPACK_KEY (int x, int y) = Inr (x, y)"
    using assms(1,2) by (simp add: UNPACK_KEY_def)
  moreover have "find_rectangles_one_key s x y c = Inr []" for c
    using assms(1,2,3) by (simp add: find_rectangles_one_key_def)
  ultimately show ?thesis
    using assms(4)
    by (simp add: data_State_find_rectangles_impl_def split: option.splits pyobj.splits)
qed

theorem find_rectangles_solved_corner_witness:
  "\<exists>s. State [((1, 1), 3)] False None = Inr s \<and> CELL_FILLED (ss_grid s) 1 1
       \<and> data_State_find_rectangles_impl s (Some (1, 1)) None = Inr []"
proof -
  obtain s where s: "State [((1, 1), 3)] False None = Inr s" "CELL_FILLED (ss_grid s) 1 1"
    using State_one_clue by (auto split: sum.splits)
  from find_rectangles_solved_corner [of 1 1 s None] s show ?thesis by simp
qed

subsection \<open>Adding candidates\<close>

text \<open>
  C4: for a state that satisfies the representation invariant and a change whose keys
  are in range and name unsolved cells and whose values are CandidateSets,
  \<^verbatim>\<open>add_candidates\<close> does not fail; the mask of every cell of the change becomes
  \<open>old OR add\<close>, the other cells keep their masks; every count \<open>cand_count[d]\<close> of every
  house grows by the number of cells of the house that the change gives the digit \<open>d\<close>
  anew (\<open>d\<close> in \<open>add \<setminus> old\<close>), and \<open>solved_count\<close> stays; hence a change that only
  re-adds candidates (\<open>add \<subseteq> old\<close> in every item) leaves every mask and every house
  count as it was.
\<close>

theorem add_candidates_effect:
  assumes "state_inv s" and "distinct (map fst change)" and "list_all (valid_entry s) change"
  shows "snd (data_State_add_candidates s change) = None
    \<and> (\<forall>x y cs. ((int x, int y), PyCandidateSet cs) \<in> set change \<longrightarrow>
          CELL_CANDS (ss_grid (fst (data_State_add_candidates s change))) x y
            = CELL_CANDS (ss_grid s) x y OR cs_set cs)
    \<and> (\<forall>x<9. \<forall>y<9. (int x, int y) \<notin> fst ` set change \<longrightarrow>
          CELL_CANDS (ss_grid (fst (data_State_add_candidates s change))) x y
            = CELL_CANDS (ss_grid s) x y)
    \<and> (\<forall>h<27. \<forall>d<9.
          cand_count (ss_houses (fst (data_State_add_candidates s change))) h d
            = cand_count (ss_houses s) h d + int (length (filter (newly_added s h d) change)))
    \<and> (\<forall>h<27. hi_solved (ss_houses (fst (data_State_add_candidates s change)) ! h)
            = hi_solved (ss_houses s ! h))
    \<and> ((\<forall>x y cs. ((int x, int y), PyCandidateSet cs) \<in> set change \<longrightarrow>
            SUBSET (cs_set cs) (CELL_CANDS (ss_grid s) x y)) \<longrightarrow>
         (\<forall>x<9. \<forall>y<9. CELL_CANDS (ss_grid (fst (data_State_add_candidates s change))) x y
            = CELL_CANDS (ss_grid s) x y)
         \<and> (\<forall>h<27. \<forall>d<9.
              cand_count (ss_houses (fst (data_State_add_candidates s change))) h d
                = cand_count (ss_houses s) h d))"
proof -
  let ?s' = "fst (data_State_add_candidates s change)"
  note L = add_loop [OF state_invD(3) [OF assms(1)] state_invD(1) [OF assms(1)] assms(2,3),
      folded data_State_add_candidates_def]
  from L have ok: "snd (data_State_add_candidates s change) = None" by simp
  from L have mask: "CELL_CANDS (ss_grid ?s') x y = CELL_CANDS (ss_grid s) x y OR added_mask change x y"
    if "x < 9" "y < 9" for x y using that by simp
  from L have count: "cand_count (ss_houses ?s') h d
      = cand_count (ss_houses s) h d + int (length (filter (newly_added s h d) change))"
    if "h < 27" "d < 9" for h d using that by simp
  from L have solved: "hi_solved (ss_houses ?s' ! h) = hi_solved (ss_houses s ! h)"
    if "h < 27" for h using that by simp
  have entry: "x < 9 \<and> y < 9 \<and> added_mask change x y = cs_set cs"
    if "((int x, int y), PyCandidateSet cs) \<in> set change" for x y cs
  proof -
    from that assms(3) have "valid_entry s ((int x, int y), PyCandidateSet cs)"
      by (simp add: list_all_iff)
    then have "x < 9" "y < 9"
      by (auto elim!: valid_entryE)
    moreover have "map_of change (int x, int y) = Some (PyCandidateSet cs)"
      using assms(2) that by (rule map_of_is_SomeI)
    ultimately show ?thesis by (simp add: added_mask_def)
  qed
  have absent: "added_mask change x y = 0" if "(int x, int y) \<notin> fst ` set change" for x y
  proof -
    from that have "map_of change (int x, int y) = None"
      by (simp add: map_of_eq_None_iff)
    then show ?thesis by (simp add: added_mask_def)
  qed
  have readd: "(\<forall>x<9. \<forall>y<9. CELL_CANDS (ss_grid ?s') x y = CELL_CANDS (ss_grid s) x y)
         \<and> (\<forall>h<27. \<forall>d<9. cand_count (ss_houses ?s') h d = cand_count (ss_houses s) h d)"
    if sub: "\<forall>x y cs. ((int x, int y), PyCandidateSet cs) \<in> set change \<longrightarrow>
            SUBSET (cs_set cs) (CELL_CANDS (ss_grid s) x y)"
  proof -
    have m: "CELL_CANDS (ss_grid s) x y OR added_mask change x y = CELL_CANDS (ss_grid s) x y"
      if "x < 9" "y < 9" for x y
    proof (cases "map_of change (int x, int y)")
      case None
      then show ?thesis by (simp add: added_mask_def)
    next
      case (Some v)
      show ?thesis
      proof (cases v)
        case PyOther
        with Some show ?thesis by (simp add: added_mask_def)
      next
        case (PyCandidateSet cs)
        with Some have "((int x, int y), PyCandidateSet cs) \<in> set change"
          by (simp add: map_of_SomeD)
        with sub have "SUBSET (cs_set cs) (CELL_CANDS (ss_grid s) x y)" by blast
        with Some PyCandidateSet show ?thesis
          by (simp add: added_mask_def SUBSET_OR)
      qed
    qed
    have n: "filter (newly_added s h d) change = []" for h d
    proof -
      have "\<not> newly_added s h d e" if "e \<in> set change" for e
      proof -
        obtain k v where e: "e = (k, v)" by (cases e)
        from that assms(3) e have "valid_entry s (k, v)" by (simp add: list_all_iff)
        then obtain x y cs where e': "k = (int x, int y)" "v = PyCandidateSet cs"
          "UNPACK_KEY k = Inr (x, y)"
          by (rule valid_entryE)
        from that e e' sub have "SUBSET (cs_set cs) (CELL_CANDS (ss_grid s) x y)" by blast
        then show ?thesis
          by (auto simp add: newly_added_def e e'(2,3) dest: SUBSET_bit)
      qed
      then show ?thesis by (simp add: filter_empty_conv)
    qed
    show ?thesis using mask count by (simp add: m n)
  qed
  show ?thesis
    using ok solved count readd
    by (auto simp add: mask entry absent)
qed

theorem add_candidates_effect_witness:
  "\<exists>s. State [((1, 1), 3)] False None = Inr s \<and> state_inv s
     \<and> snd (data_State_add_candidates s
              [((0, 0), PyCandidateSet (build_set 511)), ((0, 1), PyCandidateSet (build_set 8))])
         = None
     \<and> CELL_CANDS (ss_grid (fst (data_State_add_candidates s
              [((0, 0), PyCandidateSet (build_set 511)), ((0, 1), PyCandidateSet (build_set 8))]))) 0 0
         = 511"
proof -
  let ?change = "[((0, 0), PyCandidateSet (build_set 511)), ((0, 1), PyCandidateSet (build_set 8))]
                   :: ((int \<times> int) \<times> pyobj) list"
  obtain s where s: "State [((1, 1), 3)] False None = Inr s" "state_inv s"
    "list_all (valid_entry s) ?change" "CELL_CANDS (ss_grid s) 0 0 = 0"
    using State_one_clue_inv by (auto split: sum.splits)
  have d: "distinct (map fst ?change)" by simp
  from add_candidates_effect [OF s(2) d s(3)] s show ?thesis
    by (auto simp add: build_set_def)
qed

subsection \<open>Removing candidates\<close>

text \<open>
  C2: for a state that satisfies the representation invariant and a change whose keys
  are in range and name unsolved cells and whose values are CandidateSets,
  \<^verbatim>\<open>remove_candidates\<close> sets the mask of every cell of the change to \<open>old AND NOT rem\<close>
  and keeps the other masks; every count \<open>cand_count[d]\<close> of every house drops by the
  number of cells of the house that lose the digit \<open>d\<close> (\<open>d\<close> in \<open>rem \<inter> old\<close>); all items are
  processed, and the call then fails with \<open>Contradiction\<close> at the last item that left its
  cell empty, if there is one, and succeeds otherwise. The state it returns holds all
  the removals in both cases.
\<close>

theorem remove_candidates_effect:
  assumes "state_inv s" and "distinct (map fst change)" and "list_all (valid_entry s) change"
  shows "(\<forall>x y cs. ((int x, int y), PyCandidateSet cs) \<in> set change \<longrightarrow>
          CELL_CANDS (ss_grid (fst (data_State_remove_candidates s change))) x y
            = CELL_CANDS (ss_grid s) x y AND NOT (cs_set cs))
    \<and> (\<forall>x<9. \<forall>y<9. (int x, int y) \<notin> fst ` set change \<longrightarrow>
          CELL_CANDS (ss_grid (fst (data_State_remove_candidates s change))) x y
            = CELL_CANDS (ss_grid s) x y)
    \<and> (\<forall>h<27. \<forall>d<9.
          cand_count (ss_houses (fst (data_State_remove_candidates s change))) h d
            = cand_count (ss_houses s) h d - int (length (filter (removed_present s h d) change)))
    \<and> (\<forall>h<27. hi_solved (ss_houses (fst (data_State_remove_candidates s change)) ! h)
            = hi_solved (ss_houses s ! h))
    \<and> snd (data_State_remove_candidates s change)
        = (case contradiction_site s change of
             None \<Rightarrow> None
           | Some (x, y) \<Rightarrow> Some (Contradiction x y))"
proof -
  let ?r = "dict_loop remove_entry (s, None) change"
  let ?s' = "fst (data_State_remove_candidates s change)"
  note L = remove_loop [OF state_invD(3) [OF assms(1)] state_invD(1) [OF assms(1)] assms(2,3),
      of None]
  obtain s1 rs e where r: "?r = ((s1, rs), e)"
    by (metis surj_pair)
  from L r have e: "e = None" by simp
  from L r have rs: "rs = contradiction_site s change"
    by (simp split: option.splits)
  have s': "?s' = fst (fst ?r)"
    unfolding data_State_remove_candidates_def r e by (cases rs) auto
  have err: "snd (data_State_remove_candidates s change)
        = (case contradiction_site s change of
             None \<Rightarrow> None
           | Some (x, y) \<Rightarrow> Some (Contradiction x y))"
    unfolding data_State_remove_candidates_def r e rs [symmetric] by (cases rs) auto
  from L have mask: "CELL_CANDS (ss_grid ?s') x y
      = CELL_CANDS (ss_grid s) x y AND NOT (removed_mask change x y)"
    if "x < 9" "y < 9" for x y unfolding s' using that by simp
  from L have count: "cand_count (ss_houses ?s') h d
      = cand_count (ss_houses s) h d - int (length (filter (removed_present s h d) change))"
    if "h < 27" "d < 9" for h d unfolding s' using that by simp
  from L have solved: "hi_solved (ss_houses ?s' ! h) = hi_solved (ss_houses s ! h)"
    if "h < 27" for h unfolding s' using that by simp
  have entry: "x < 9 \<and> y < 9 \<and> removed_mask change x y = cs_set cs"
    if "((int x, int y), PyCandidateSet cs) \<in> set change" for x y cs
  proof -
    from that assms(3) have "valid_entry s ((int x, int y), PyCandidateSet cs)"
      by (simp add: list_all_iff)
    then have "x < 9" "y < 9"
      by (auto elim!: valid_entryE)
    moreover have "map_of change (int x, int y) = Some (PyCandidateSet cs)"
      using assms(2) that by (rule map_of_is_SomeI)
    ultimately show ?thesis by (simp add: removed_mask_def)
  qed
  have absent: "removed_mask change x y = 0" if "(int x, int y) \<notin> fst ` set change" for x y
  proof -
    from that have "map_of change (int x, int y) = None"
      by (simp add: map_of_eq_None_iff)
    then show ?thesis by (simp add: removed_mask_def)
  qed
  show ?thesis
    using solved count err
    by (auto simp add: mask entry absent)
qed


theorem remove_candidates_effect_witness:
  "\<exists>s. State [((1, 1), 3)] False None = Inr s
     \<and> state_inv (fst (data_State_add_candidates s four_corners))
     \<and> CELL_CANDS (ss_grid (fst (data_State_add_candidates s four_corners))) 0 5 = 9
     \<and> cand_count (ss_houses (fst (data_State_add_candidates s four_corners))) 18 3 = 2
     \<and> cand_count (ss_houses (fst (data_State_add_candidates s four_corners))) 14 0 = 1
     \<and> snd (data_State_remove_candidates (fst (data_State_add_candidates s four_corners))
              corner_removal)
         = Some (Contradiction 4 5)
     \<and> CELL_CANDS (ss_grid (fst (data_State_remove_candidates
            (fst (data_State_add_candidates s four_corners)) corner_removal))) 0 0 = 0
     \<and> CELL_CANDS (ss_grid (fst (data_State_remove_candidates
            (fst (data_State_add_candidates s four_corners)) corner_removal))) 0 5 = 1
     \<and> CELL_CANDS (ss_grid (fst (data_State_remove_candidates
            (fst (data_State_add_candidates s four_corners)) corner_removal))) 4 5 = 0
     \<and> CELL_CANDS (ss_grid (fst (data_State_remove_candidates
            (fst (data_State_add_candidates s four_corners)) corner_removal))) 4 0 = 24
     \<and> cand_count (ss_houses (fst (data_State_remove_candidates
            (fst (data_State_add_candidates s four_corners)) corner_removal))) 18 3 = 0
     \<and> cand_count (ss_houses (fst (data_State_remove_candidates
            (fst (data_State_add_candidates s four_corners)) corner_removal))) 14 0 = 1"
proof -
  obtain s where s: "State [((1, 1), 3)] False None = Inr s"
    "state_inv (fst (data_State_add_candidates s four_corners))"
    using State_four_corners by (auto split: sum.splits)
  let ?s = "fst (data_State_add_candidates s four_corners)"
  from State_four_corners_removal s(1) have v:
    "list_all (valid_entry ?s) corner_removal"
    "contradiction_site ?s corner_removal = Some (4, 5)"
    "CELL_CANDS (ss_grid ?s) 0 0 = 8" "CELL_CANDS (ss_grid ?s) 0 5 = 9"
    "CELL_CANDS (ss_grid ?s) 4 5 = 8" "CELL_CANDS (ss_grid ?s) 4 0 = 24"
    "cand_count (ss_houses ?s) 18 3 = 2" "cand_count (ss_houses ?s) 14 0 = 1"
    "length (filter (removed_present ?s 18 3) corner_removal) = 2"
    "length (filter (removed_present ?s 14 0) corner_removal) = 0"
    by simp_all
  have d: "distinct (map fst corner_removal)" by (simp add: corner_removal_def)
  note T = remove_candidates_effect [OF s(2) d v(1)]
  have m1: "CELL_CANDS (ss_grid (fst (data_State_remove_candidates ?s corner_removal))) 0 0 = 0"
    using T [THEN conjunct1, rule_format, of 0 0 "build_set 8"] v(3)
    by (simp add: corner_removal_def build_set_def)
  have m2: "CELL_CANDS (ss_grid (fst (data_State_remove_candidates ?s corner_removal))) 0 5 = 1"
    using T [THEN conjunct1, rule_format, of 0 5 "build_set 8"] v(4)
    by (simp add: corner_removal_def build_set_def)
  have m3: "CELL_CANDS (ss_grid (fst (data_State_remove_candidates ?s corner_removal))) 4 5 = 0"
    using T [THEN conjunct1, rule_format, of 4 5 "build_set 9"] v(5)
    by (simp add: corner_removal_def build_set_def)
  have m4: "CELL_CANDS (ss_grid (fst (data_State_remove_candidates ?s corner_removal))) 4 0 = 24"
    using T [THEN conjunct2, THEN conjunct1, rule_format, of 4 0] v(6)
    by (simp add: corner_removal_def)
  have c1: "cand_count (ss_houses (fst (data_State_remove_candidates ?s corner_removal))) 18 3 = 0"
    using T [THEN conjunct2, THEN conjunct2, THEN conjunct1, rule_format, of 18 3] v(7,9)
    by simp
  have c2: "cand_count (ss_houses (fst (data_State_remove_candidates ?s corner_removal))) 14 0 = 1"
    using T [THEN conjunct2, THEN conjunct2, THEN conjunct1, rule_format, of 14 0] v(8,10)
    by simp
  have e: "snd (data_State_remove_candidates ?s corner_removal) = Some (Contradiction 4 5)"
    using T v(2) by simp
  from s v(4,7,8) m1 m2 m3 m4 c1 c2 e show ?thesis by blast
qed

subsection \<open>The rectangle finder\<close>

text \<open>
  C8: in a state that satisfies the representation invariant, with \<open>cands\<close> absent or a
  CandidateSet. With a corner in the last row or the last column \<^verbatim>\<open>find_rectangles\<close>
  fails with \<open>BadCorner\<close>. With any other corner \<open>(x, y)\<close> it returns rectangles that all
  satisfy the rectangle predicate and have \<open>(x, y)\<close> as upper left corner, ordered by
  ascending \<open>c2\<close> and then ascending \<open>r2\<close>. Without a corner it returns rectangles that all
  satisfy the rectangle predicate.
\<close>

theorem find_rectangles_sound:
  assumes "state_inv s" and "cands \<noteq> Some PyOther"
  shows "(\<forall>x<9. \<forall>y<9.
            (x = 8 \<or> y = 8 \<longrightarrow>
               data_State_find_rectangles_impl s (Some (int x, int y)) cands = Inl BadCorner)
          \<and> (x < 8 \<and> y < 8 \<longrightarrow>
               (\<exists>rs. data_State_find_rectangles_impl s (Some (int x, int y)) cands = Inr rs
                  \<and> (\<forall>r\<in>set rs. rectangle_ok s (required_of cands) r \<and> fst (snd r) = (x, y))
                  \<and> sorted_wrt rect_before rs)))
    \<and> (\<exists>rs. data_State_find_rectangles_impl s None cands = Inr rs
          \<and> (\<forall>r\<in>set rs. rectangle_ok s (required_of cands) r))"
proof -
  define cs where "cs = (case cands of Some (PyCandidateSet c) \<Rightarrow> Some c | _ \<Rightarrow> None)"
  have req: "required_of cands = (case cs of None \<Rightarrow> 0 | Some c \<Rightarrow> cs_set c)"
    by (simp add: required_of_def cs_def split: option.splits pyobj.splits)
  have anchored: "data_State_find_rectangles_impl s (Some (int x, int y)) cands
      = find_rectangles_one_key s x y cs" if "x < 9" "y < 9" for x y
    using that assms(2)
    by (simp add: data_State_find_rectangles_impl_def UNPACK_KEY_def cs_def
          split: option.splits pyobj.splits)
  have global: "data_State_find_rectangles_impl s None cands
      = find_rectangles_scan s cs upper_left_keys []"
    using assms(2)
    by (simp add: data_State_find_rectangles_impl_def cs_def split: option.splits pyobj.splits)
  have last: "find_rectangles_one_key s x y cs = Inl BadCorner" if "x = 8 \<or> y = 8" for x y
    using that by (auto simp add: find_rectangles_one_key_def)
  have inner: "\<exists>rs. find_rectangles_one_key s x y cs = Inr rs
      \<and> (\<forall>r\<in>set rs. rectangle_ok s (required_of cands) r \<and> fst (snd r) = (x, y))
      \<and> sorted_wrt rect_before rs" if "x < 8" "y < 8" for x y
  proof -
    from that obtain rs where rs: "find_rectangles_one_key s x y cs = Inr rs"
      using one_key_Inr [of x y s cs] by auto
    from that have "x < 9" "y < 9" by simp_all
    from one_key_rectangle_ok [OF assms(1) this rs] sorted_one_key [OF rs] rs
    show ?thesis by (simp add: req)
  qed
  have scan: "\<exists>rs. find_rectangles_scan s cs upper_left_keys [] = Inr rs
      \<and> (\<forall>r\<in>set rs. rectangle_ok s (required_of cands) r)"
    using scan_rectangle_ok [OF assms(1) upper_left_keys_range, of "[]" cs]
    by (simp add: req)
  show ?thesis
    using last inner scan by (simp add: anchored global)
qed

theorem find_rectangles_sound_witness:
  "\<exists>s. State [((1, 1), 3)] False None = Inr s
     \<and> state_inv (fst (data_State_add_candidates s four_corners))
     \<and> data_State_find_rectangles_impl (fst (data_State_add_candidates s four_corners))
          (Some (0, 0)) (Some (PyCandidateSet (build_set 8)))
         = Inr [(build_set 8, ((0, 0), (0, 5), (4, 5), (4, 0)))]
     \<and> rectangle_ok (fst (data_State_add_candidates s four_corners)) 8
          (build_set 8, ((0, 0), (0, 5), (4, 5), (4, 0)))
     \<and> data_State_find_rectangles_impl (fst (data_State_add_candidates s four_corners))
          (Some (0, 8)) (Some (PyCandidateSet (build_set 8)))
         = Inl BadCorner"
proof -
  obtain s where s: "State [((1, 1), 3)] False None = Inr s"
    "state_inv (fst (data_State_add_candidates s four_corners))"
    "data_State_find_rectangles_impl (fst (data_State_add_candidates s four_corners))
          (Some (0, 0)) (Some (PyCandidateSet (build_set 8)))
         = Inr [(build_set 8, ((0, 0), (0, 5), (4, 5), (4, 0)))]"
    using State_four_corners by (auto split: sum.splits)
  have c: "Some (PyCandidateSet (build_set 8)) \<noteq> Some PyOther" by simp
  note T = find_rectangles_sound [OF s(2) c, THEN conjunct1, rule_format]
  from T [of 0 0] T [of 0 8] s show ?thesis
    by (auto simp add: required_of_def build_set_def)
qed

subsection \<open>The iterator of the cells with a given number of candidates\<close>

text \<open>
  C7, as the specification states it: \<^verbatim>\<open>order_exactly_n(0)\<close> fails with \<open>BadCount\<close>. It
  does not: the guard of \<^verbatim>\<open>data_State_order_exactly_n_impl\<close> is
  \<^verbatim>\<open>count < 0 || count >= NUMROWS\<close>, so the count 0 is accepted, and on the empty grid
  built without pencil marks the iterator yields all 81 cells, which all have an empty
  candidate set.
\<close>

theorem order_exactly_n_zero_accepted:
  "case State [] False None of
     Inl e \<Rightarrow> False
   | Inr s \<Rightarrow>
       (case data_State_order_exactly_n_impl s 0 of
          Inl e \<Rightarrow> False
        | Inr ki \<Rightarrow> exactly_n_keys (ss_grid s) ki = all_keys)"
  by code_simp

text \<open>
  C7, amended: in a state that satisfies the representation invariant,
  \<^verbatim>\<open>order_exactly_n(k)\<close> fails with \<open>BadCount\<close> for \<open>k < 0\<close> and for \<open>k \<ge> 9\<close>, and for every
  \<open>k\<close> with \<open>0 \<le> k \<le> 8\<close> it returns an iterator that yields exactly the unsolved cells
  whose candidate set has \<open>k\<close> elements, in row-major order.
\<close>

theorem order_exactly_n_yields:
  assumes "state_inv s"
  shows "(count < 0 \<or> 9 \<le> count \<longrightarrow> data_State_order_exactly_n_impl s count = Inl BadCount)
    \<and> (0 \<le> count \<and> count < 9 \<longrightarrow>
         (\<exists>ki. data_State_order_exactly_n_impl s count = Inr ki
            \<and> exactly_n_keys (ss_grid s) ki
                = filter (\<lambda>(x, y). \<not> CELL_FILLED (ss_grid s) x y
                    \<and> int (card {d. d < 9 \<and> bit (CELL_CANDS (ss_grid s) x y) d}) = count)
                  all_keys))"
proof -
  let ?ki = "\<lparr>ki_next_x = 0, ki_next_y = 0, ki_pos = count\<rparr>"
  have "exactly_n_keys (ss_grid s) ?ki = filter (exactly_n_test (ss_grid s) count) all_keys"
    using exactly_n_keys_filter [of ?ki "ss_grid s"] by simp
  also have "\<dots> = filter (\<lambda>(x, y). \<not> CELL_FILLED (ss_grid s) x y
                    \<and> int (card {d. d < 9 \<and> bit (CELL_CANDS (ss_grid s) x y) d}) = count)
                  all_keys"
    by (rule filter_cong [OF refl]) (rule exactly_n_test_card [OF assms])
  finally show ?thesis
    by (simp add: data_State_order_exactly_n_impl_def)
qed

lemma four_corners_exactly_2:
  "case State [((1, 1), 3)] False None of
     Inl e \<Rightarrow> False
   | Inr s \<Rightarrow>
       (case data_State_order_exactly_n_impl (fst (data_State_add_candidates s four_corners)) 2 of
          Inl e \<Rightarrow> False
        | Inr ki \<Rightarrow>
            exactly_n_keys (ss_grid (fst (data_State_add_candidates s four_corners))) ki
              = [(0, 5), (4, 0)])"
  by code_simp

theorem order_exactly_n_yields_witness:
  "\<exists>s. State [((1, 1), 3)] False None = Inr s
     \<and> state_inv (fst (data_State_add_candidates s four_corners))
     \<and> (\<exists>ki. data_State_order_exactly_n_impl (fst (data_State_add_candidates s four_corners)) 2
              = Inr ki
          \<and> exactly_n_keys (ss_grid (fst (data_State_add_candidates s four_corners))) ki
              = [(0, 5), (4, 0)]
          \<and> filter (\<lambda>(x, y).
                \<not> CELL_FILLED (ss_grid (fst (data_State_add_candidates s four_corners))) x y
                \<and> int (card {d. d < 9
                     \<and> bit (CELL_CANDS (ss_grid (fst (data_State_add_candidates s four_corners)))
                          x y) d}) = 2)
              all_keys = [(0, 5), (4, 0)])
     \<and> data_State_order_exactly_n_impl (fst (data_State_add_candidates s four_corners)) 9
         = Inl BadCount"
proof -
  obtain s where s: "State [((1, 1), 3)] False None = Inr s"
    "state_inv (fst (data_State_add_candidates s four_corners))"
    using State_four_corners by (auto split: sum.splits)
  let ?s = "fst (data_State_add_candidates s four_corners)"
  from four_corners_exactly_2 s(1) obtain ki where
    ki: "data_State_order_exactly_n_impl ?s 2 = Inr ki"
      "exactly_n_keys (ss_grid ?s) ki = [(0, 5), (4, 0)]"
    by (auto split: sum.splits)
  from order_exactly_n_yields [OF s(2), of 2] order_exactly_n_yields [OF s(2), of 9] ki s
  show ?thesis by auto
qed

subsection \<open>The iterator in random order\<close>



subsection \<open>The house counters after a second fill\<close>

text \<open>
  The unsolved cells of the house \<open>h\<close> whose candidate mask includes the digit \<open>d\<close>, in
  row-major order.
\<close>

definition unsolved_with :: "SudokuStateObject \<Rightarrow> nat \<Rightarrow> nat \<Rightarrow> (nat \<times> nat) list" where
  "unsolved_with s h d =
     filter (\<lambda>(x, y). in_house s x y h \<and> \<not> CELL_FILLED (ss_grid s) x y
                        \<and> bit (CELL_CANDS (ss_grid s) x y) d) all_keys"

text \<open>
  A solved grid without its cell \<open>(0, 0)\<close>: the cell \<open>(r, c)\<close> holds the digit
  \<open>(3 (r mod 3) + r div 3 + c + 1) mod 9\<close>, and the digit that is missing at \<open>(0, 0)\<close> is 1.
\<close>

definition one_cell_left :: "((int \<times> int) \<times> int) list" where
  "one_cell_left =
     map (\<lambda>(r, c). ((int r, int c), int ((3 * (r mod 3) + r div 3 + c + 1) mod 9)))
       (tl all_keys)"

text \<open>
  \<^verbatim>\<open>fill_in_pencilmarks\<close> starts with
  \<^verbatim>\<open>memset(self->ss_houses[n].hi_cand_count, 0, sizeof(Py_ssize_t))\<close>, which clears the
  counter of the digit 0 and no other.
\<close>

lemma memset_cand_count_keeps:
  "0 < d \<Longrightarrow> hi_cand_count (memset_cand_count h) ! d = hi_cand_count h ! d"
  by (simp add: memset_cand_count_def)

text \<open>
  C1: after every public mutation the counter \<open>cand_count[d]\<close> of every house is to equal
  the number of the unsolved cells of the house whose candidate mask includes \<open>d\<close>. The
  constructor with pencil marks on \<open>one_cell_left\<close> leaves the counter of the digit 1 of
  row 0 (house 18) at 1, for the one unsolved cell \<open>(0, 0)\<close>, as it should.
  \<^verbatim>\<open>candidates.fill()\<close> then succeeds, leaves the grid as it is, and leaves the counter at
  2: it counts the cell a second time on top of the counter that it did not clear.
\<close>

theorem fill_pencilmarks_twice:
  "case State one_cell_left True None of
     Inl e \<Rightarrow> False
   | Inr s \<Rightarrow>
       cand_count (ss_houses s) 18 1 = 1 \<and> unsolved_with s 18 1 = [(0, 0)]
       \<and> (case data_state_candidates_fill_impl s of
            (s', e) \<Rightarrow> e = None
              \<and> ss_grid s' = ss_grid s
              \<and> cand_count (ss_houses s') 18 1 = 2 \<and> unsolved_with s' 18 1 = [(0, 0)])"
  by code_simp

subsection \<open>Pickling\<close>

text \<open>
  C5: the state restored from the snapshot of a reachable state is to equal that state on
  the cell table, the house aggregates, the grid aggregates and the set of solved keys.
  No state has a snapshot: the format that \<^verbatim>\<open>__reduce__\<close> hands to \<^verbatim>\<open>Py_BuildValue\<close>,
  \<^verbatim>\<open>"(O(OOO)(OOO)"\<close>, opens three parentheses and closes two, so for every state
  \<^verbatim>\<open>__reduce__\<close> raises \<^verbatim>\<open>SystemError\<close>, and pickling followed by unpickling yields that
  error and no state.
\<close>

theorem reduce_raises:
  "data_State___reduce___impl s = Inl SystemError \<and> snapshot_restore s = Inl SystemError"
  by (simp add: snapshot_restore_def data_State___reduce___impl_def Py_BuildValue_def)

end
